theory Spec2Isabelle
  imports Main "HOL-Library.Word" "HOL-Library.Sublist" "HOL-Library.Code_Target_Numeral" "HOL-Library.Monad_Syntax"
begin

unbundle bit_operations_syntax

section \<open>Overview\<close>

text \<open>
  A shallow embedding of the server routes of the daily guessing game,
  \<open>src/server/routes/game.ts\<close>, with the types of \<open>src/shared/api.ts\<close>. The source
  file holds two listings of the module. The first listing (lines 1--403) has the
  completed flag, the give-up route and a day key that the client may supply; its
  community selection accepts a candidate with an unknown subscriber count. The second
  listing (lines 404--814) has no completed flag and always uses the server's UTC day;
  its community selection scans a shuffled list into a qualifying and an
  unknown-but-safe bucket. Functions of the second listing that differ from the first
  carry the suffix \<open>2\<close>; the helpers that are the same in both are modelled once.

  The content source and the clock are parameters: a record \<open>Reddit\<close> of what each
  upstream call returns, and the time \<open>now\<close> of the request in milliseconds. The
  key-value store is passed in and returned; its keys carry the expiry that the handlers
  give them, and a read at the time \<open>now\<close> does not see an expired key. An
  \<open>await\<close> that rejects, and a \<open>throw\<close>, are a result \<open>Inl error\<close>.
\<close>

section \<open>Strings\<close>

text \<open>
  JavaScript strings are sequences of UTF-16 code units. The model uses \<open>string\<close>, whose
  characters are the code units below 256 (ASCII and Latin-1); \<open>charCodeAt\<close> is
  \<open>of_char\<close>. Date keys, mode names and normalised guesses are ASCII.
\<close>

definition charCodeAt :: "char \<Rightarrow> nat" where
  "charCodeAt c = of_char c"

text \<open>
  \<open>toLowerCase\<close> on the code units below 256: the letters A--Z, and the Latin-1 capitals
  U+00C0--U+00DE except the multiplication sign U+00D7, move up by 32.
\<close>

definition toLowerCase_char :: "char \<Rightarrow> char" where
  "toLowerCase_char c =
     (let n = charCodeAt c
      in if (65 \<le> n \<and> n \<le> 90) \<or> (192 \<le> n \<and> n \<le> 222 \<and> n \<noteq> 215)
         then char_of (n + 32) else c)"

definition toLowerCase :: "string \<Rightarrow> string" where
  "toLowerCase s = map toLowerCase_char s"

text \<open>
  \<open>trim\<close> removes white space and line terminators at both ends; below 256 these are
  tab, line feed, vertical tab, form feed, carriage return, space and no-break space.
\<close>

definition isWhiteSpace :: "char \<Rightarrow> bool" where
  "isWhiteSpace c = (charCodeAt c \<in> {9, 10, 11, 12, 13, 32, 160})"

definition trim :: "string \<Rightarrow> string" where
  "trim s = rev (dropWhile isWhiteSpace (rev (dropWhile isWhiteSpace s)))"

text \<open>\<open>hay.includes(needle)\<close>\<close>

fun includes_str :: "string \<Rightarrow> string \<Rightarrow> bool" where
  "includes_str [] needle = (needle = [])"
| "includes_str (c # cs) needle = (prefix needle (c # cs) \<or> includes_str cs needle)"

text \<open>The decimal text of a number in a template literal, and \<open>padStart(2, "0")\<close>.\<close>

definition digit_char :: "nat \<Rightarrow> char" where
  "digit_char d = char_of (48 + d)"

function show_nat :: "nat \<Rightarrow> string" where
  "show_nat n = (if n < 10 then [digit_char n] else show_nat (n div 10) @ [digit_char (n mod 10)])"
  by pat_completeness auto
termination
  by (relation "measure id") auto

declare show_nat.simps [simp del]

definition show_int :: "int \<Rightarrow> string" where
  "show_int i = (if i < 0 then CHR ''-'' # show_nat (nat (- i)) else show_nat (nat i))"

definition padStart2 :: "string \<Rightarrow> string" where
  "padStart2 s = replicate (2 - length s) CHR ''0'' @ s"

section \<open>Deterministic sampler\<close>

text \<open>
  Lines 47--62. The bit operations of JavaScript work on 32-bit integers: \<open>^\<close> and
  \<open><<\<close> are \<open>XOR\<close> and \<open>push_bit\<close> on \<open>32 word\<close>, \<open>Math.imul\<close> is the word
  product, \<open>>>\<close> is the arithmetic shift \<open>signed_drop_bit\<close>, and \<open>h >>> 0\<close> reads
  the word as unsigned (\<open>unat\<close>). \<open>Math.abs(x) % len\<close> is on the signed reading. The
  source never calls \<open>pickIndex\<close> with \<open>len = 0\<close>: every call follows a check that
  the list is not empty, and the model keeps those checks.
\<close>

definition seedFromString :: "string \<Rightarrow> 32 word" where
  "seedFromString str =
     fold (\<lambda>c h. (h XOR of_nat (charCodeAt c)) * 16777619) str 2166136261"

definition xorshift32 :: "32 word \<Rightarrow> 32 word" where
  "xorshift32 x =
     (let x1 = x XOR push_bit 13 x;
          x2 = x1 XOR signed_drop_bit 17 x1;
          x3 = x2 XOR push_bit 5 x2
      in x3)"

definition pickIndex :: "nat \<Rightarrow> 32 word \<Rightarrow> nat" where
  "pickIndex len seed =
     (let x = xorshift32 (if seed = 0 then 123456789 else seed)
      in nat \<bar>sint x\<bar> mod len)"

section \<open>Calendar\<close>

text \<open>
  Lines 6--15. \<open>utcDateKey\<close> formats the UTC date of a time given in milliseconds
  since the epoch as \<open>YYYY-MM-DD\<close>. The date of a day number is computed by the
  usual era-based conversion of the proleptic Gregorian calendar, which is what
  \<open>getUTCFullYear\<close>, \<open>getUTCMonth\<close> and \<open>getUTCDate\<close> return.
\<close>

definition civil_from_days :: "int \<Rightarrow> int \<times> nat \<times> nat" where
  "civil_from_days z0 =
     (let z = z0 + 719468;
          era = z div 146097;
          doe = z - era * 146097;
          yoe = (doe - doe div 1460 + doe div 36524 - doe div 146096) div 365;
          doy = doe - (365 * yoe + yoe div 4 - yoe div 100);
          mp = (5 * doy + 2) div 153;
          d = doy - (153 * mp + 2) div 5 + 1;
          m = (if mp < 10 then mp + 3 else mp - 9);
          y = yoe + era * 400 + (if m \<le> 2 then 1 else 0)
      in (y, nat m, nat d))"

definition utcDateKey :: "int \<Rightarrow> string" where
  "utcDateKey ms =
     (case civil_from_days (ms div 86400000) of
        (y, m, d) \<Rightarrow> show_int y @ ''-'' @ padStart2 (show_nat m) @ ''-'' @ padStart2 (show_nat d))"

definition utcDateKeyOffset :: "int \<Rightarrow> int \<Rightarrow> string" where
  "utcDateKeyOffset now daysOffset = utcDateKey (now + daysOffset * 24 * 60 * 60 * 1000)"


section \<open>Data model\<close>

datatype GameMode = Easy | Medium | Hard

fun mode_str :: "GameMode \<Rightarrow> string" where
  "mode_str Easy = ''easy''"
| "mode_str Medium = ''medium''"
| "mode_str Hard = ''hard''"

record DailyPuzzle =
  pz_dateKey :: string
  pz_mode :: GameMode
  pz_subreddit :: string
  pz_postId :: string
  pz_postTitle :: string
  pz_postBody :: string
  pz_commentId :: string
  pz_commentBody :: string

text \<open>
  Upstream records are untyped in the source (\<open>any\<close>). A metadata field is a JavaScript
  value; finite numbers are modelled as integers (subscriber counts are integers). The
  \<open>subreddit\<close> field of a post is absent, a string, or an object with a \<open>name\<close>.
\<close>

datatype jsval = JUndefined | JNull | JBool bool | JNum int | JNonFinite | JStr string

record SubredditInfo =
  subscribers :: jsval
  subscriberCount :: jsval
  subscriber_count :: jsval
  subscribersCount :: jsval
  communitySize :: jsval
  nsfw :: jsval
  isNsfw :: jsval
  over18 :: jsval
  isOver18 :: jsval
  over_18 :: jsval

datatype subreddit_field = NoSubreddit | SubredditObj string | SubredditStr string

record Post =
  p_subredditName :: "string option"
  p_subreddit :: subreddit_field
  p_id :: string
  p_title :: "string option"
  p_selftext :: "string option"
  p_body :: "string option"

record Comment =
  c_id :: string
  c_body :: "string option"

datatype info_result = InfoThrows | InfoNull | Info SubredditInfo

text \<open>
  The content source, as one snapshot: what each call returns. \<open>None\<close> for a listing or a
  comment fetch means that the call throws. The listing calls take the community and the
  \<open>limit\<close> the source passes.
\<close>

record Reddit =
  getNewPosts :: "string \<Rightarrow> nat \<Rightarrow> Post list option"
  getHotPosts :: "string \<Rightarrow> nat \<Rightarrow> Post list option"
  getComments :: "string \<Rightarrow> Comment list option"
  getSubredditInfoByName :: "string \<Rightarrow> info_result"
  getCurrentUser :: "string option"

text \<open>
  The errors a request can end in: a rejected upstream call that the source does not catch,
  the two \<open>throw new Error\<close> of the puzzle builder, and a cache entry that is not a
  serialised puzzle (\<open>JSON.parse\<close> does not return a puzzle).
\<close>

datatype error = UpstreamError | NoPostsFound string | NoUsableComments string | CacheCorrupt

section \<open>Candidate filter\<close>

text \<open>
  Lines 64--91. \<open>getSubscriberCount\<close> returns the first of the five probed fields that
  is a finite number, and 0 when there is none; \<open>info?.field\<close> of a missing record is
  \<open>undefined\<close>.
\<close>

fun minSubsForMode :: "GameMode \<Rightarrow> int" where
  "minSubsForMode Easy = 1000000"
| "minSubsForMode Medium = 10000"
| "minSubsForMode Hard = 0"

fun first_finite :: "jsval list \<Rightarrow> int" where
  "first_finite [] = 0"
| "first_finite (JNum n # vs) = n"
| "first_finite (v # vs) = first_finite vs"

definition count_fields :: "SubredditInfo option \<Rightarrow> jsval list" where
  "count_fields info =
     (case info of
        None \<Rightarrow> [JUndefined, JUndefined, JUndefined, JUndefined, JUndefined]
      | Some i \<Rightarrow> [subscribers i, subscriberCount i, subscriber_count i,
                   subscribersCount i, communitySize i])"

definition getSubscriberCount :: "SubredditInfo option \<Rightarrow> int" where
  "getSubscriberCount info = first_finite (count_fields info)"

definition isNsfwSub :: "SubredditInfo option \<Rightarrow> bool" where
  "isNsfwSub info =
     (case info of
        None \<Rightarrow> False
      | Some i \<Rightarrow> list_ex (\<lambda>v. v = JBool True) [nsfw i, isNsfw i, over18 i, isOver18 i, over_18 i])"

definition getPostSubredditName :: "Post \<Rightarrow> string option" where
  "getPostSubredditName post =
     (case p_subredditName post of
        Some s \<Rightarrow> Some s
      | None \<Rightarrow>
          (case p_subreddit post of
             SubredditObj n \<Rightarrow> Some n
           | SubredditStr s \<Rightarrow> Some s
           | NoSubreddit \<Rightarrow> None))"

text \<open>\<open>posts.map(getPostSubredditName).filter(s => !!s)\<close>: the empty string is falsy.\<close>

definition truthy_subs :: "Post list \<Rightarrow> string list" where
  "truthy_subs posts =
     List.map_filter
       (\<lambda>p. case getPostSubredditName p of
               None \<Rightarrow> None
             | Some s \<Rightarrow> if s = [] then None else Some s) posts"

text \<open>The \<open>try { getNewPosts } catch { getHotPosts }\<close> of both listings.\<close>

definition list_posts :: "Reddit \<Rightarrow> string \<Rightarrow> nat \<Rightarrow> Post list option" where
  "list_posts r name limit =
     (case getNewPosts r name limit of
        Some ps \<Rightarrow> Some ps
      | None \<Rightarrow> getHotPosts r name limit)"

section \<open>Subreddit selection, first listing (lines 136--176)\<close>

text \<open>
  The loop of lines 156--173 over \<open>i = 0, ..., min(45, n) - 1\<close>, with the set
  \<open>tried\<close>. A lookup that throws is caught and the loop continues; a lookup that
  returns no record passes the gate, since its count reads 0.
\<close>

fun pick_loop ::
  "Reddit \<Rightarrow> int \<Rightarrow> string list \<Rightarrow> 32 word \<Rightarrow> nat list \<Rightarrow> string list \<Rightarrow> string option" where
  "pick_loop r minSubs candidates baseSeed [] tried = None"
| "pick_loop r minSubs candidates baseSeed (i # rest) tried =
     (let idx = pickIndex (length candidates)
                  (seedFromString (show_nat (unat baseSeed) @ '':'' @ show_nat i));
          sub = candidates ! idx
      in if sub \<in> set tried then pick_loop r minSubs candidates baseSeed rest tried
         else
           (case getSubredditInfoByName r sub of
              InfoThrows \<Rightarrow> pick_loop r minSubs candidates baseSeed rest (sub # tried)
            | res \<Rightarrow>
                (let info = (case res of Info i \<Rightarrow> Some i | _ \<Rightarrow> None)
                 in if isNsfwSub info
                    then pick_loop r minSubs candidates baseSeed rest (sub # tried)
                    else
                      (let subs = getSubscriberCount info
                       in if subs = 0 \<or> subs \<ge> minSubs then Some sub
                          else pick_loop r minSubs candidates baseSeed rest (sub # tried)))))"

definition pickSubredditForMode :: "string \<Rightarrow> GameMode \<Rightarrow> Reddit \<Rightarrow> error + string" where
  "pickSubredditForMode dateKey mode r =
     (case list_posts r ''all'' 120 of
        None \<Rightarrow> Inl UpstreamError
      | Some posts \<Rightarrow>
          (let candidates = truthy_subs posts
           in if candidates = [] then Inr ''all''
              else
                (let baseSeed = seedFromString (dateKey @ '':'' @ mode_str mode @ '':subpick'')
                 in case pick_loop r (minSubsForMode mode) candidates baseSeed
                           [0 ..< min 45 (length candidates)] []
                    of Some sub \<Rightarrow> Inr sub
                     | None \<Rightarrow> Inr (candidates ! pickIndex (length candidates) baseSeed))))"

section \<open>Subreddit selection, second listing (lines 526--626)\<close>

text \<open>
  \<open>shuffleDeterministic\<close> (lines 526--537): \<open>shuffle_loop i x a\<close> is the loop at
  index \<open>i\<close>, running down to 1, with the generator state \<open>x\<close>.
\<close>

fun shuffle_loop :: "nat \<Rightarrow> 32 word \<Rightarrow> 'a list \<Rightarrow> 'a list" where
  "shuffle_loop 0 x a = a"
| "shuffle_loop (Suc k) x a =
     (let x' = xorshift32 x;
          j = nat \<bar>sint x'\<bar> mod (Suc k + 1)
      in shuffle_loop k x' (a[Suc k := a ! j, j := a ! Suc k]))"

definition shuffleDeterministic :: "'a list \<Rightarrow> 32 word \<Rightarrow> 'a list" where
  "shuffleDeterministic arr seed =
     shuffle_loop (length arr - 1) (if seed = 0 then 123456789 else seed) arr"

definition safeSubInfo :: "Reddit \<Rightarrow> string \<Rightarrow> SubredditInfo option" where
  "safeSubInfo r name =
     (case getSubredditInfoByName r name of Info i \<Rightarrow> Some i | _ \<Rightarrow> None)"

text \<open>\<open>Array.from(new Set(rawSubs))\<close>: first occurrences, in order.\<close>

definition uniqueSubs :: "string list \<Rightarrow> string list" where
  "uniqueSubs rawSubs = fold (\<lambda>s acc. if s \<in> set acc then acc else acc @ [s]) rawSubs []"

text \<open>The loop of the hard tier (lines 576--582): the first candidate with a record that is not adult.\<close>

fun hard_scan :: "Reddit \<Rightarrow> string list \<Rightarrow> string option" where
  "hard_scan r [] = None"
| "hard_scan r (sub # rest) =
     (case safeSubInfo r sub of
        None \<Rightarrow> hard_scan r rest
      | Some info \<Rightarrow> if isNsfwSub (Some info) then hard_scan r rest else Some sub)"

text \<open>
  The loop of the two stricter tiers (lines 591--606), with the buckets \<open>qualifying\<close>
  (community and count) and \<open>unknownButSafe\<close>; it stops at 12 qualifying entries.
\<close>

fun scan_loop ::
  "Reddit \<Rightarrow> int \<Rightarrow> string list \<Rightarrow> (string \<times> int) list \<Rightarrow> string list
     \<Rightarrow> (string \<times> int) list \<times> string list" where
  "scan_loop r minSubs [] qualifying unknownButSafe = (qualifying, unknownButSafe)"
| "scan_loop r minSubs (sub # rest) qualifying unknownButSafe =
     (case safeSubInfo r sub of
        None \<Rightarrow> scan_loop r minSubs rest qualifying unknownButSafe
      | Some info \<Rightarrow>
          if isNsfwSub (Some info) then scan_loop r minSubs rest qualifying unknownButSafe
          else
            (let subs = getSubscriberCount (Some info);
                 qualifying' = (if subs > 0 \<and> subs \<ge> minSubs
                                then qualifying @ [(sub, subs)] else qualifying);
                 unknownButSafe' = (if subs > 0 then unknownButSafe else unknownButSafe @ [sub])
             in if length qualifying' \<ge> 12 then (qualifying', unknownButSafe')
                else scan_loop r minSubs rest qualifying' unknownButSafe'))"

text \<open>The shuffled list (line 572) and the buckets after the scan of its first 60 entries.\<close>

definition subsToScan :: "string \<Rightarrow> GameMode \<Rightarrow> Post list \<Rightarrow> string list" where
  "subsToScan dateKey mode posts =
     shuffleDeterministic (uniqueSubs (truthy_subs posts))
       (seedFromString (dateKey @ '':'' @ mode_str mode @ '':scan''))"

definition scan_buckets ::
  "string \<Rightarrow> GameMode \<Rightarrow> Reddit \<Rightarrow> Post list \<Rightarrow> (string \<times> int) list \<times> string list" where
  "scan_buckets dateKey mode r posts =
     scan_loop r (minSubsForMode mode) (take 60 (subsToScan dateKey mode posts)) [] []"

definition pickSubredditForMode2 :: "string \<Rightarrow> GameMode \<Rightarrow> Reddit \<Rightarrow> error + string" where
  "pickSubredditForMode2 dateKey mode r =
     (case list_posts r ''all'' 150 of
        None \<Rightarrow> Inl UpstreamError
      | Some posts \<Rightarrow>
          if uniqueSubs (truthy_subs posts) = [] then Inr ''all''
          else
            (let scanSeed = seedFromString (dateKey @ '':'' @ mode_str mode @ '':scan'');
                 scanList = subsToScan dateKey mode posts
             in if mode = Hard then
                  (case hard_scan r (take 40 scanList) of
                     Some sub \<Rightarrow> Inr sub
                   | None \<Rightarrow> Inr (scanList ! pickIndex (length scanList) scanSeed))
                else
                  (case scan_buckets dateKey mode r posts of
                     (qualifying, unknownButSafe) \<Rightarrow>
                       if qualifying \<noteq> [] then
                         (let bucket = (if mode = Easy
                                        then take 12 (sort_key (\<lambda>q. - snd q) qualifying)
                                        else qualifying);
                              pickSeed = seedFromString
                                (dateKey @ '':'' @ mode_str mode @ '':pickQualified'')
                          in Inr (fst (bucket ! pickIndex (length bucket) pickSeed)))
                       else if unknownButSafe \<noteq> [] then
                         (let pickSeed = seedFromString
                                (dateKey @ '':'' @ mode_str mode @ '':pickUnknown'')
                          in Inr (unknownButSafe ! pickIndex (length unknownButSafe) pickSeed))
                       else Inr (scanList ! pickIndex (length scanList) scanSeed))))"


section \<open>Known subscriber counts\<close>

fun is_finite_number :: "jsval \<Rightarrow> bool" where
  "is_finite_number (JNum n) = True"
| "is_finite_number v = False"

text \<open>
  The count of a community is known when its metadata lookup returns a record in which one
  of the five probed fields is a finite number; the known count is that number.
\<close>

definition knownCount :: "Reddit \<Rightarrow> string \<Rightarrow> int option" where
  "knownCount r sub =
     (case getSubredditInfoByName r sub of
        Info i \<Rightarrow>
          if list_ex is_finite_number (count_fields (Some i))
          then Some (getSubscriberCount (Some i)) else None
      | _ \<Rightarrow> None)"

text \<open>What the gate of the second listing admits into the qualifying bucket.\<close>

definition qualifies :: "Reddit \<Rightarrow> int \<Rightarrow> string \<times> int \<Rightarrow> bool" where
  "qualifies r minSubs q =
     (knownCount r (fst q) = Some (snd q) \<and> 0 < snd q \<and> minSubs \<le> snd q)"

text \<open>What the second listing puts into the unknown-but-safe bucket.\<close>

definition unknown_safe :: "Reddit \<Rightarrow> string \<Rightarrow> bool" where
  "unknown_safe r sub =
     (case safeSubInfo r sub of
        None \<Rightarrow> False
      | Some info \<Rightarrow> \<not> isNsfwSub (Some info) \<and> getSubscriberCount (Some info) \<le> 0)"

section \<open>Concrete upstream data\<close>

definition post_in :: "string \<Rightarrow> string \<Rightarrow> Post" where
  "post_in sub pid =
     \<lparr>p_subredditName = Some sub, p_subreddit = NoSubreddit, p_id = pid,
      p_title = Some ''A title'', p_selftext = None, p_body = None\<rparr>"

definition info_with :: "jsval \<Rightarrow> SubredditInfo" where
  "info_with v =
     \<lparr>subscribers = v, subscriberCount = JUndefined, subscriber_count = JUndefined,
      subscribersCount = JUndefined, communitySize = JUndefined, nsfw = JUndefined,
      isNsfw = JUndefined, over18 = JBool False, isOver18 = JUndefined, over_18 = JUndefined\<rparr>"

definition two_posts :: "Post list" where
  "two_posts = [post_in ''alpha'' ''t3_a'', post_in ''beta'' ''t3_b'']"

text \<open>Two communities in the global feed; the metadata lookup is the parameter.\<close>

definition two_subs :: "(string \<Rightarrow> info_result) \<Rightarrow> Reddit" where
  "two_subs f =
     \<lparr>getNewPosts = (\<lambda>name limit. if name = ''all'' then Some two_posts else Some []),
      getHotPosts = (\<lambda>name limit. None),
      getComments = (\<lambda>pid. Some []),
      getSubredditInfoByName = f,
      getCurrentUser = None\<rparr>"

definition all_lookups_fail :: "string \<Rightarrow> info_result" where
  "all_lookups_fail s = InfoThrows"

definition alpha_unknown_beta_5M :: "string \<Rightarrow> info_result" where
  "alpha_unknown_beta_5M s =
     (if s = ''alpha'' then Info (info_with JUndefined) else Info (info_with (JNum 5000000)))"

definition alpha_unknown_beta_500 :: "string \<Rightarrow> info_result" where
  "alpha_unknown_beta_500 s =
     (if s = ''alpha'' then Info (info_with JUndefined) else Info (info_with (JNum 500)))"

definition alpha_1M_beta_5M :: "string \<Rightarrow> info_result" where
  "alpha_1M_beta_5M s =
     (if s = ''alpha'' then Info (info_with (JNum 1000000)) else Info (info_with (JNum 5000000)))"


section \<open>Puzzle builder\<close>

text \<open>\<open>comments.map(c => ({id: c.id, body: (c.body ?? "").toString().trim()}))\<close>\<close>

definition trimmed_comments :: "Comment list \<Rightarrow> (string \<times> string) list" where
  "trimmed_comments comments =
     map (\<lambda>c. (c_id c, trim (case c_body c of None \<Rightarrow> [] | Some b \<Rightarrow> b))) comments"

text \<open>The filter of \<open>usable\<close> (lines 206--216), on a trimmed body.\<close>

definition usable_body :: "string \<Rightarrow> string \<Rightarrow> bool" where
  "usable_body subreddit body =
     (if body = [] then False
      else if body = ''[deleted]'' \<or> body = ''[removed]'' then False
      else if length body < 25 then False
      else
        (let lower = toLowerCase body
         in if includes_str lower (''r/'' @ toLowerCase subreddit) then False
            else if includes_str lower ''this sub'' \<or> includes_str lower ''this subreddit''
              then False
            else if includes_str lower ''i am a bot'' \<or> includes_str lower ''automod''
              then False
            else True))"

definition usable :: "string \<Rightarrow> Comment list \<Rightarrow> (string \<times> string) list" where
  "usable subreddit comments =
     filter (\<lambda>c. usable_body subreddit (snd c)) (trimmed_comments comments)"

text \<open>The looser filter (line 222).\<close>

definition loose_body :: "string \<Rightarrow> bool" where
  "loose_body body = (body \<noteq> [] \<and> body \<noteq> ''[deleted]'' \<and> body \<noteq> ''[removed]'')"

definition loose :: "Comment list \<Rightarrow> (string \<times> string) list" where
  "loose comments = filter (\<lambda>c. loose_body (snd c)) (trimmed_comments comments)"

definition pool :: "string \<Rightarrow> Comment list \<Rightarrow> (string \<times> string) list" where
  "pool subreddit comments =
     (if usable subreddit comments \<noteq> [] then take 60 (usable subreddit comments)
      else take 60 (loose comments))"

text \<open>
  Lines 185--238, the same in both listings: from the selected community to the puzzle.
\<close>

definition build_from :: "string \<Rightarrow> GameMode \<Rightarrow> Reddit \<Rightarrow> string \<Rightarrow> error + DailyPuzzle" where
  "build_from dateKey mode r subreddit =
     (case list_posts r subreddit 50 of
        None \<Rightarrow> Inl UpstreamError
      | Some posts \<Rightarrow>
          if posts = [] then Inl (NoPostsFound subreddit)
          else
            (let post = posts ! pickIndex (length posts)
                   (seedFromString
                      (dateKey @ '':'' @ mode_str mode @ '':'' @ subreddit @ '':post''));
                 postId = p_id post;
                 postTitle = (case p_title post of None \<Rightarrow> [] | Some t \<Rightarrow> t);
                 postBody = (case p_selftext post of
                               Some s \<Rightarrow> s
                             | None \<Rightarrow> (case p_body post of Some b \<Rightarrow> b | None \<Rightarrow> []))
             in case getComments r postId of
                  None \<Rightarrow> Inl UpstreamError
                | Some comments \<Rightarrow>
                    if pool subreddit comments = [] then Inl (NoUsableComments postId)
                    else
                      (let comment = pool subreddit comments !
                             pickIndex (length (pool subreddit comments))
                               (seedFromString
                                  (dateKey @ '':'' @ mode_str mode @ '':'' @ subreddit
                                     @ '':comment''))
                       in Inr \<lparr>pz_dateKey = dateKey, pz_mode = mode, pz_subreddit = subreddit,
                                pz_postId = postId, pz_postTitle = postTitle,
                                pz_postBody = postBody, pz_commentId = fst comment,
                                pz_commentBody = snd comment\<rparr>)))"

section \<open>Serialised puzzles\<close>

text \<open>
  \<open>JSON.stringify(puzzle)\<close> of a puzzle record: the eight properties in the order in
  which the object literal of the builder lists them, every value a string. A string is
  quoted as \<open>JSON.stringify\<close> quotes it: the double quote and the backslash are escaped,
  the control characters below U+0020 become \<open>\b \t \n \f \r\<close> or \<open>\u00XX\<close>, every
  other code unit stands for itself.
\<close>

definition dquote :: char where
  "dquote = CHR 0x22"

definition backslash :: char where
  "backslash = CHR 0x5C"

definition hex_digit :: "nat \<Rightarrow> char" where
  "hex_digit n = (if n < 10 then char_of (48 + n) else char_of (87 + n))"

definition json_escape :: "char \<Rightarrow> string" where
  "json_escape c =
     (let n = charCodeAt c
      in if c = dquote then [backslash, dquote]
         else if c = backslash then [backslash, backslash]
         else if n = 8 then [backslash, CHR ''b'']
         else if n = 9 then [backslash, CHR ''t'']
         else if n = 10 then [backslash, CHR ''n'']
         else if n = 12 then [backslash, CHR ''f'']
         else if n = 13 then [backslash, CHR ''r'']
         else if n < 32
           then [backslash, CHR ''u'', CHR ''0'', CHR ''0'', hex_digit (n div 16), hex_digit (n mod 16)]
         else [c])"

definition json_string :: "string \<Rightarrow> string" where
  "json_string s = dquote # concat (map json_escape s) @ [dquote]"

definition json_property :: "string \<Rightarrow> string \<Rightarrow> string" where
  "json_property name v = json_string name @ '':'' @ json_string v"

definition JSON_stringify :: "DailyPuzzle \<Rightarrow> string" where
  "JSON_stringify p =
     ''{'' @ json_property ''dateKey'' (pz_dateKey p)
       @ '','' @ json_property ''mode'' (mode_str (pz_mode p))
       @ '','' @ json_property ''subreddit'' (pz_subreddit p)
       @ '','' @ json_property ''postId'' (pz_postId p)
       @ '','' @ json_property ''postTitle'' (pz_postTitle p)
       @ '','' @ json_property ''postBody'' (pz_postBody p)
       @ '','' @ json_property ''commentId'' (pz_commentId p)
       @ '','' @ json_property ''commentBody'' (pz_commentBody p)
       @ ''}''"

text \<open>
  \<open>JSON.parse(cached) as DailyPuzzle\<close>, on the texts of that shape: an object of the
  eight string properties in that order, without white space. A string literal is read
  as \<open>JSON.parse\<close> reads it: an escape is decoded, a raw control character is refused.
  A text of another shape, and an escape \<open>\uXXXX\<close> of a code unit above 255, is
  \<open>None\<close>.
\<close>

definition hex_value :: "char \<Rightarrow> nat option" where
  "hex_value c =
     (let n = charCodeAt c
      in if 48 \<le> n \<and> n \<le> 57 then Some (n - 48)
         else if 97 \<le> n \<and> n \<le> 102 then Some (n - 87)
         else if 65 \<le> n \<and> n \<le> 70 then Some (n - 55)
         else None)"

definition unescape :: "char \<Rightarrow> char option" where
  "unescape e =
     (if e = dquote then Some dquote
      else if e = backslash then Some backslash
      else if e = CHR ''/'' then Some CHR ''/''
      else if e = CHR ''b'' then Some (char_of (8 :: nat))
      else if e = CHR ''t'' then Some (char_of (9 :: nat))
      else if e = CHR ''n'' then Some (char_of (10 :: nat))
      else if e = CHR ''f'' then Some (char_of (12 :: nat))
      else if e = CHR ''r'' then Some (char_of (13 :: nat))
      else None)"

text \<open>The characters of a string literal after its opening quote, and the text after it.\<close>

fun parse_chars :: "string \<Rightarrow> (string \<times> string) option" where
  "parse_chars [] = None"
| "parse_chars (c # cs) =
     (if c = dquote then Some ([], cs)
      else if c = backslash then
        (case cs of
           [] \<Rightarrow> None
         | e # es \<Rightarrow>
             if e = CHR ''u'' then
               (case es of
                  h1 # h2 # h3 # h4 # rest \<Rightarrow>
                    (case (hex_value h1, hex_value h2, hex_value h3, hex_value h4) of
                       (Some a, Some b, Some x, Some y) \<Rightarrow>
                         if a = 0 \<and> b = 0
                         then map_option (\<lambda>(s, r). (char_of (16 * x + y) # s, r)) (parse_chars rest)
                         else None
                     | _ \<Rightarrow> None)
                | _ \<Rightarrow> None)
             else
               (case unescape e of
                  None \<Rightarrow> None
                | Some d \<Rightarrow> map_option (\<lambda>(s, r). (d # s, r)) (parse_chars es)))
      else if charCodeAt c < 32 then None
      else map_option (\<lambda>(s, r). (c # s, r)) (parse_chars cs))"

fun expect :: "string \<Rightarrow> string \<Rightarrow> string option" where
  "expect [] s = Some s"
| "expect (c # cs) [] = None"
| "expect (c # cs) (d # ds) = (if c = d then expect cs ds else None)"

definition parse_property :: "string \<Rightarrow> string \<Rightarrow> (string \<times> string) option" where
  "parse_property name s =
     (case expect (json_string name @ '':'' @ [dquote]) s of
        None \<Rightarrow> None
      | Some rest \<Rightarrow> parse_chars rest)"

definition mode_of_str :: "string \<Rightarrow> GameMode option" where
  "mode_of_str s =
     (if s = ''easy'' then Some Easy
      else if s = ''medium'' then Some Medium
      else if s = ''hard'' then Some Hard
      else None)"

definition JSON_parse :: "string \<Rightarrow> DailyPuzzle option" where
  "JSON_parse text =
     do {
       r0 \<leftarrow> expect ''{'' text;
       (dateKey, r1) \<leftarrow> parse_property ''dateKey'' r0;
       r2 \<leftarrow> expect '','' r1;
       (modeText, r3) \<leftarrow> parse_property ''mode'' r2;
       mode \<leftarrow> mode_of_str modeText;
       r4 \<leftarrow> expect '','' r3;
       (subreddit, r5) \<leftarrow> parse_property ''subreddit'' r4;
       r6 \<leftarrow> expect '','' r5;
       (postId, r7) \<leftarrow> parse_property ''postId'' r6;
       r8 \<leftarrow> expect '','' r7;
       (postTitle, r9) \<leftarrow> parse_property ''postTitle'' r8;
       r10 \<leftarrow> expect '','' r9;
       (postBody, r11) \<leftarrow> parse_property ''postBody'' r10;
       r12 \<leftarrow> expect '','' r11;
       (commentId, r13) \<leftarrow> parse_property ''commentId'' r12;
       r14 \<leftarrow> expect '','' r13;
       (commentBody, r15) \<leftarrow> parse_property ''commentBody'' r14;
       if r15 = ''}''
       then Some \<lparr>pz_dateKey = dateKey, pz_mode = mode, pz_subreddit = subreddit,
                  pz_postId = postId, pz_postTitle = postTitle, pz_postBody = postBody,
                  pz_commentId = commentId, pz_commentBody = commentBody\<rparr>
       else None
     }"

section \<open>Key-value store\<close>

text \<open>
  Redis holds strings, and a key may carry a time at which it expires. An entry of the
  store is the value with that time, in milliseconds since the epoch; \<open>None\<close> is a
  key that does not expire. Of the values, \<open>Str s\<close> is the string \<open>s\<close>, and
  \<open>Num n\<close> stands for the decimal string \<open>String(n)\<close> that the handlers write for a
  score or a streak and read back with \<open>Number\<close>. The clock of the store is the clock
  \<open>now\<close> of the request.

  \<open>redis.get\<close> does not see a key whose time has come. \<open>redis.set\<close> writes the value
  and drops the key's expiry. \<open>redis.expire(key, seconds)\<close> gives a key that is
  there the expiry \<open>seconds\<close> from now.
\<close>

datatype rvalue = Str string | Num int

type_synonym redis = "string \<Rightarrow> (rvalue \<times> int option) option"

definition redis_get :: "redis \<Rightarrow> int \<Rightarrow> string \<Rightarrow> rvalue option" where
  "redis_get store now key =
     (case store key of
        None \<Rightarrow> None
      | Some (v, None) \<Rightarrow> Some v
      | Some (v, Some expiry) \<Rightarrow> if now < expiry then Some v else None)"

definition redis_set :: "redis \<Rightarrow> string \<Rightarrow> rvalue \<Rightarrow> redis" where
  "redis_set store key v = store(key \<mapsto> (v, None))"

definition redis_expire :: "redis \<Rightarrow> int \<Rightarrow> string \<Rightarrow> int \<Rightarrow> redis" where
  "redis_expire store now key seconds =
     (case redis_get store now key of
        None \<Rightarrow> store
      | Some v \<Rightarrow> store(key \<mapsto> (v, Some (now + seconds * 1000))))"

definition kScore :: "string \<Rightarrow> GameMode \<Rightarrow> string" where
  "kScore userId mode = ''nts:user:'' @ userId @ '':'' @ mode_str mode @ '':score''"

definition kStreak :: "string \<Rightarrow> GameMode \<Rightarrow> string" where
  "kStreak userId mode = ''nts:user:'' @ userId @ '':'' @ mode_str mode @ '':streak''"

definition kLastDate :: "string \<Rightarrow> GameMode \<Rightarrow> string" where
  "kLastDate userId mode = ''nts:user:'' @ userId @ '':'' @ mode_str mode @ '':lastDate''"

definition kPlayed :: "string \<Rightarrow> GameMode \<Rightarrow> string \<Rightarrow> string" where
  "kPlayed userId mode dateKey =
     ''nts:user:'' @ userId @ '':'' @ mode_str mode @ '':played:'' @ dateKey"

definition kCommit :: "string \<Rightarrow> GameMode \<Rightarrow> string \<Rightarrow> string" where
  "kCommit userId mode dateKey =
     ''nts:user:'' @ userId @ '':'' @ mode_str mode @ '':commit:'' @ dateKey"

definition kCompleted :: "string \<Rightarrow> GameMode \<Rightarrow> string \<Rightarrow> string" where
  "kCompleted userId mode dateKey =
     ''nts:user:'' @ userId @ '':'' @ mode_str mode @ '':completed:'' @ dateKey"

definition cacheKey :: "string \<Rightarrow> GameMode \<Rightarrow> string" where
  "cacheKey dateKey mode = ''nts:puzzle:'' @ dateKey @ '':'' @ mode_str mode"

text \<open>\<open>(await redis.get(key)) === "1"\<close>\<close>

definition is_one :: "redis \<Rightarrow> int \<Rightarrow> string \<Rightarrow> bool" where
  "is_one store now key = (redis_get store now key = Some (Str ''1''))"

text \<open>Lines 115--133: the two flags of a day, each written with an expiry of 48 hours.\<close>

definition readCommitted :: "redis \<Rightarrow> int \<Rightarrow> string \<Rightarrow> GameMode \<Rightarrow> string \<Rightarrow> bool" where
  "readCommitted store now userId mode dateKey = is_one store now (kCommit userId mode dateKey)"

definition commitMode :: "redis \<Rightarrow> int \<Rightarrow> string \<Rightarrow> GameMode \<Rightarrow> string \<Rightarrow> redis" where
  "commitMode store now userId mode dateKey =
     (let key = kCommit userId mode dateKey;
          s1 = redis_set store key (Str ''1'')
      in redis_expire s1 now key (60 * 60 * 48))"

definition readCompleted :: "redis \<Rightarrow> int \<Rightarrow> string \<Rightarrow> GameMode \<Rightarrow> string \<Rightarrow> bool" where
  "readCompleted store now userId mode dateKey = is_one store now (kCompleted userId mode dateKey)"

definition setCompleted :: "redis \<Rightarrow> int \<Rightarrow> string \<Rightarrow> GameMode \<Rightarrow> string \<Rightarrow> redis" where
  "setCompleted store now userId mode dateKey =
     (let key = kCompleted userId mode dateKey;
          s1 = redis_set store key (Str ''1'')
      in redis_expire s1 now key (60 * 60 * 48))"

text \<open>
  \<open>Number((await redis.get(key)) ?? 0)\<close>. Only \<open>String(n)\<close> is ever written under a
  score or streak key; on another shape the model reads 0.
\<close>

definition readNumber :: "redis \<Rightarrow> int \<Rightarrow> string \<Rightarrow> int" where
  "readNumber store now key = (case redis_get store now key of Some (Num n) \<Rightarrow> n | _ \<Rightarrow> 0)"

text \<open>\<open>await redis.get(key)\<close> of a key that holds a plain string.\<close>

definition readString :: "redis \<Rightarrow> int \<Rightarrow> string \<Rightarrow> string option" where
  "readString store now key = (case redis_get store now key of Some (Str s) \<Rightarrow> Some s | _ \<Rightarrow> None)"

section \<open>Puzzle cache\<close>

text \<open>
  Lines 178--243. \<open>if (cached) return JSON.parse(cached)\<close>: the empty string is falsy; a
  value that is no serialised puzzle ends the request in \<open>CacheCorrupt\<close>. A puzzle
  that was built is written as its JSON text, with an expiry of 48 hours. The selection
  function is the parameter in which the two listings differ.
\<close>

definition build_with ::
  "(string \<Rightarrow> GameMode \<Rightarrow> Reddit \<Rightarrow> error + string)
     \<Rightarrow> string \<Rightarrow> GameMode \<Rightarrow> Reddit \<Rightarrow> int \<Rightarrow> redis \<Rightarrow> (error + DailyPuzzle) \<times> redis" where
  "build_with select dateKey mode r now store =
     (case redis_get store now (cacheKey dateKey mode) of
        Some (Str (c # cs)) \<Rightarrow>
          (case JSON_parse (c # cs) of
             Some cached \<Rightarrow> (Inr cached, store)
           | None \<Rightarrow> (Inl CacheCorrupt, store))
      | Some (Num n) \<Rightarrow> (Inl CacheCorrupt, store)
      | _ \<Rightarrow>
          (case select dateKey mode r of
             Inl e \<Rightarrow> (Inl e, store)
           | Inr subreddit \<Rightarrow>
               (case build_from dateKey mode r subreddit of
                  Inl e \<Rightarrow> (Inl e, store)
                | Inr puzzle \<Rightarrow>
                    (let s1 = redis_set store (cacheKey dateKey mode) (Str (JSON_stringify puzzle))
                     in (Inr puzzle, redis_expire s1 now (cacheKey dateKey mode) (60 * 60 * 48))))))"

definition buildDailyPuzzle ::
  "string \<Rightarrow> GameMode \<Rightarrow> Reddit \<Rightarrow> int \<Rightarrow> redis \<Rightarrow> (error + DailyPuzzle) \<times> redis" where
  "buildDailyPuzzle = build_with pickSubredditForMode"

definition buildDailyPuzzle2 ::
  "string \<Rightarrow> GameMode \<Rightarrow> Reddit \<Rightarrow> int \<Rightarrow> redis \<Rightarrow> (error + DailyPuzzle) \<times> redis" where
  "buildDailyPuzzle2 = build_with pickSubredditForMode2"

text \<open>The puzzle that a request at the time \<open>now\<close> finds in the cache.\<close>

definition cache_lookup :: "redis \<Rightarrow> int \<Rightarrow> string \<Rightarrow> GameMode \<Rightarrow> DailyPuzzle option" where
  "cache_lookup store now dateKey mode =
     (case redis_get store now (cacheKey dateKey mode) of
        Some (Str (c # cs)) \<Rightarrow> JSON_parse (c # cs)
      | _ \<Rightarrow> None)"





section \<open>Request normalisation\<close>

text \<open>\<open>/^\/?r\//i\<close>: an optional slash, then \<open>r\<close> or \<open>R\<close>, then a slash.\<close>

definition strip_r_prefix :: "string \<Rightarrow> string" where
  "strip_r_prefix s =
     (let t = (case s of c # cs \<Rightarrow> if c = CHR ''/'' then cs else s | [] \<Rightarrow> s)
      in case t of
           c # d # rest \<Rightarrow>
             if (c = CHR ''r'' \<or> c = CHR ''R'') \<and> d = CHR ''/'' then rest else s
         | _ \<Rightarrow> s)"

definition isWordChar :: "char \<Rightarrow> bool" where
  "isWordChar c =
     (let n = charCodeAt c
      in (65 \<le> n \<and> n \<le> 90) \<or> (97 \<le> n \<and> n \<le> 122) \<or> (48 \<le> n \<and> n \<le> 57) \<or> n = 95)"

definition normalizeGuess :: "string \<Rightarrow> string" where
  "normalizeGuess input = filter isWordChar (strip_r_prefix (trim input))"

text \<open>\<open>String(raw ?? "")\<close>: a missing field is \<open>None\<close>.\<close>

definition normalizeMode :: "string option \<Rightarrow> GameMode" where
  "normalizeMode raw =
     (let s = toLowerCase (case raw of None \<Rightarrow> [] | Some x \<Rightarrow> x)
      in if s = ''easy'' then Easy
         else if s = ''medium'' then Medium
         else if s = ''hard'' then Hard
         else Medium)"

definition isDigit :: "char \<Rightarrow> bool" where
  "isDigit c = (48 \<le> charCodeAt c \<and> charCodeAt c \<le> 57)"

text \<open>\<open>/^\d{4}-\d{2}-\d{2}$/\<close>\<close>

definition is_date_format :: "string \<Rightarrow> bool" where
  "is_date_format s =
     (case s of
        [y1, y2, y3, y4, h1, m1, m2, h2, d1, d2] \<Rightarrow>
          list_all isDigit [y1, y2, y3, y4, m1, m2, d1, d2] \<and> h1 = CHR ''-'' \<and> h2 = CHR ''-''
      | _ \<Rightarrow> False)"

text \<open>The clock is the parameter \<open>now\<close>, in milliseconds since the epoch.\<close>

definition normalizeClientDateKey :: "int \<Rightarrow> string option \<Rightarrow> string" where
  "normalizeClientDateKey now raw =
     (let s = trim (case raw of None \<Rightarrow> [] | Some x \<Rightarrow> x)
      in if \<not> is_date_format s then utcDateKey now else s)"

definition resolveDateKey :: "int \<Rightarrow> string option \<Rightarrow> string" where
  "resolveDateKey now queryOrBodyDateKey =
     (let dk = normalizeClientDateKey now queryOrBodyDateKey
      in if dk \<notin> {utcDateKeyOffset now (- 1), utcDateKeyOffset now 0, utcDateKeyOffset now 1}
         then utcDateKey now
         else dk)"

definition currentUserId :: "Reddit \<Rightarrow> string" where
  "currentUserId r = (case getCurrentUser r of None \<Rightarrow> ''anon'' | Some u \<Rightarrow> u)"

section \<open>Requests and responses\<close>

text \<open>
  A request body (or query) after \<open>c.req.json().catch(() => ({}))\<close>: a field that is
  missing, or a body that is missing or does not parse, is \<open>None\<close> in every field.
  The body is an object; a body that parses to \<open>null\<close>, on which the field access
  itself throws, is not modelled. \<open>stageUsed\<close> is compared with \<open>===\<close> against 1,
  2 and 3; a value that is no number behaves as a number other than these.
\<close>

record GuessBody =
  gb_subredditGuess :: "string option"
  gb_stageUsed :: "int option"
  gb_mode :: "string option"
  gb_dateKey :: "string option"

record ModeBody =
  mb_mode :: "string option"
  mb_dateKey :: "string option"

record GuessResponse =
  gr_correct :: bool
  gr_stageUsed :: int
  gr_pointsAwarded :: int
  gr_answer :: string
  gr_totalScore :: int
  gr_streak :: int
  gr_modeLocked :: GameMode
  gr_modeIsLocked :: bool
  gr_completedToday :: "bool option"

record GiveUpResponse =
  gu_modeLocked :: GameMode
  gu_modeIsLocked :: bool
  gu_completedToday :: bool
  gu_answer :: string

record GetStateResponse =
  sr_puzzle :: DailyPuzzle
  sr_modeLocked :: GameMode
  sr_modeIsLocked :: bool
  sr_completedToday :: bool
  sr_totalScore :: int
  sr_streak :: int
  sr_lastPlayedDateKey :: "string option"

section \<open>Handlers, first listing\<close>

definition stagePoints :: "int \<Rightarrow> int" where
  "stagePoints stageUsed = (if stageUsed = 1 then 100 else if stageUsed = 2 then 60 else 30)"

text \<open>Lines 361--378: the writes of a scored win, in the order of the source. The played flag
  is written with an expiry of 48 hours; the score, the streak and the last day are not.\<close>

definition award_win :: "redis \<Rightarrow> string \<Rightarrow> GameMode \<Rightarrow> string \<Rightarrow> int \<Rightarrow> int \<Rightarrow> redis" where
  "award_win store userId mode dateKey now pointsAwarded =
     (let playedKey = kPlayed userId mode dateKey;
          s0 = redis_set store playedKey (Str ''1'');
          s1 = redis_expire s0 now playedKey (60 * 60 * 48);
          prevScore = readNumber s1 now (kScore userId mode);
          s2 = redis_set s1 (kScore userId mode) (Num (prevScore + pointsAwarded));
          lastDate = (case readString s2 now (kLastDate userId mode) of None \<Rightarrow> [] | Some d \<Rightarrow> d);
          prevStreak = readNumber s2 now (kStreak userId mode);
          yesterday = utcDateKey (now - 24 * 60 * 60 * 1000);
          newStreak = (if lastDate = yesterday then prevStreak + 1 else 1);
          s3 = redis_set s2 (kStreak userId mode) (Num newStreak)
      in redis_set s3 (kLastDate userId mode) (Str dateKey))"

text \<open>Lines 341--402: the guess against the puzzle, after the commit and the build.\<close>

definition score_guess ::
  "redis \<Rightarrow> string \<Rightarrow> GameMode \<Rightarrow> string \<Rightarrow> int \<Rightarrow> string \<Rightarrow> int \<Rightarrow> DailyPuzzle
     \<Rightarrow> GuessResponse \<times> redis" where
  "score_guess store userId mode dateKey now subredditGuess stageUsed puzzle =
     (let guess = normalizeGuess subredditGuess;
          answer = pz_subreddit puzzle;
          correct = (toLowerCase guess = toLowerCase answer);
          alreadyCompleted = readCompleted store now userId mode dateKey;
          isFinalLoss = (\<not> correct \<and> stageUsed = 3);
          finishesNow = (correct \<or> isFinalLoss);
          alreadyAwarded = is_one store now (kPlayed userId mode dateKey);
          award = (\<not> alreadyCompleted \<and> correct \<and> \<not> alreadyAwarded);
          pointsAwarded = (if award then stagePoints stageUsed else 0);
          s1 = (if award then award_win store userId mode dateKey now pointsAwarded else store);
          s2 = (if \<not> alreadyCompleted \<and> finishesNow then setCompleted s1 now userId mode dateKey
                else s1)
      in (\<lparr>gr_correct = correct, gr_stageUsed = stageUsed,
           gr_pointsAwarded = (if correct then pointsAwarded else 0), gr_answer = answer,
           gr_totalScore = readNumber s2 now (kScore userId mode),
           gr_streak = readNumber s2 now (kStreak userId mode),
           gr_modeLocked = mode, gr_modeIsLocked = True,
           gr_completedToday = Some (readCompleted s2 now userId mode dateKey)\<rparr>, s2))"

text \<open>\<open>if (!(await readCommitted(...))) await commitMode(...)\<close>\<close>

definition ensure_committed :: "redis \<Rightarrow> int \<Rightarrow> string \<Rightarrow> GameMode \<Rightarrow> string \<Rightarrow> redis" where
  "ensure_committed store now userId mode dateKey =
     (if \<not> readCommitted store now userId mode dateKey
      then commitMode store now userId mode dateKey
      else store)"

text \<open>POST /guess, lines 323--403.\<close>

definition post_guess :: "Reddit \<Rightarrow> int \<Rightarrow> GuessBody \<Rightarrow> redis \<Rightarrow> (error + GuessResponse) \<times> redis" where
  "post_guess r now body store =
     (let subredditGuess = (case gb_subredditGuess body of None \<Rightarrow> [] | Some g \<Rightarrow> g);
          stageUsed = (case gb_stageUsed body of None \<Rightarrow> 3 | Some n \<Rightarrow> n);
          requestedMode = normalizeMode (gb_mode body);
          dateKey = resolveDateKey now (gb_dateKey body);
          userId = currentUserId r;
          s1 = ensure_committed store now userId requestedMode dateKey
      in case buildDailyPuzzle dateKey requestedMode r now s1 of
           (Inl e, s2) \<Rightarrow> (Inl e, s2)
         | (Inr puzzle, s2) \<Rightarrow>
             (case score_guess s2 userId requestedMode dateKey now subredditGuess stageUsed puzzle
              of (payload, s3) \<Rightarrow> (Inr payload, s3)))"

text \<open>POST /giveup, lines 296--320.\<close>

definition post_giveup :: "Reddit \<Rightarrow> int \<Rightarrow> ModeBody \<Rightarrow> redis \<Rightarrow> (error + GiveUpResponse) \<times> redis" where
  "post_giveup r now body store =
     (let requestedMode = normalizeMode (mb_mode body);
          dateKey = resolveDateKey now (mb_dateKey body);
          userId = currentUserId r;
          s1 = ensure_committed store now userId requestedMode dateKey;
          s2 = (if \<not> readCompleted s1 now userId requestedMode dateKey
                then setCompleted s1 now userId requestedMode dateKey else s1)
      in case buildDailyPuzzle dateKey requestedMode r now s2 of
           (Inl e, s3) \<Rightarrow> (Inl e, s3)
         | (Inr puzzle, s3) \<Rightarrow>
             (Inr \<lparr>gu_modeLocked = requestedMode, gu_modeIsLocked = True,
                   gu_completedToday = True, gu_answer = pz_subreddit puzzle\<rparr>, s3))"

text \<open>GET /state, lines 248--275.\<close>

definition get_state :: "Reddit \<Rightarrow> int \<Rightarrow> ModeBody \<Rightarrow> redis \<Rightarrow> (error + GetStateResponse) \<times> redis" where
  "get_state r now query store =
     (let requestedMode = normalizeMode (mb_mode query);
          dateKey = resolveDateKey now (mb_dateKey query);
          userId = currentUserId r;
          modeIsLocked = readCommitted store now userId requestedMode dateKey;
          completedToday = readCompleted store now userId requestedMode dateKey
      in case buildDailyPuzzle dateKey requestedMode r now store of
           (Inl e, s1) \<Rightarrow> (Inl e, s1)
         | (Inr puzzle, s1) \<Rightarrow>
             (Inr \<lparr>sr_puzzle = puzzle, sr_modeLocked = requestedMode,
                   sr_modeIsLocked = modeIsLocked, sr_completedToday = completedToday,
                   sr_totalScore = readNumber s1 now (kScore userId requestedMode),
                   sr_streak = readNumber s1 now (kStreak userId requestedMode),
                   sr_lastPlayedDateKey = readString s1 now (kLastDate userId requestedMode)\<rparr>,
              s1))"

section \<open>Guess handler, second listing\<close>

text \<open>
  Lines 770--813: no completed flag; the day key is the server's UTC day. The writes of a
  scored win (lines 783--796) are those of the first listing.
\<close>

definition score_guess2 ::
  "redis \<Rightarrow> string \<Rightarrow> GameMode \<Rightarrow> string \<Rightarrow> int \<Rightarrow> string \<Rightarrow> int \<Rightarrow> DailyPuzzle
     \<Rightarrow> GuessResponse \<times> redis" where
  "score_guess2 store userId mode dateKey now subredditGuess stageUsed puzzle =
     (let guess = normalizeGuess subredditGuess;
          answer = pz_subreddit puzzle;
          correct = (toLowerCase guess = toLowerCase answer);
          alreadyAwarded = is_one store now (kPlayed userId mode dateKey);
          award = (correct \<and> \<not> alreadyAwarded);
          pointsAwarded = (if award then stagePoints stageUsed else 0);
          s1 = (if award then award_win store userId mode dateKey now pointsAwarded else store)
      in (\<lparr>gr_correct = correct, gr_stageUsed = stageUsed,
           gr_pointsAwarded = (if correct then pointsAwarded else 0), gr_answer = answer,
           gr_totalScore = readNumber s1 now (kScore userId mode),
           gr_streak = readNumber s1 now (kStreak userId mode),
           gr_modeLocked = mode, gr_modeIsLocked = True,
           gr_completedToday = None\<rparr>, s1))"

text \<open>POST /guess, lines 753--814.\<close>

definition post_guess2 :: "Reddit \<Rightarrow> int \<Rightarrow> GuessBody \<Rightarrow> redis \<Rightarrow> (error + GuessResponse) \<times> redis" where
  "post_guess2 r now body store =
     (let subredditGuess = (case gb_subredditGuess body of None \<Rightarrow> [] | Some g \<Rightarrow> g);
          stageUsed = (case gb_stageUsed body of None \<Rightarrow> 3 | Some n \<Rightarrow> n);
          requestedMode = normalizeMode (gb_mode body);
          dateKey = utcDateKey now;
          userId = currentUserId r;
          s1 = ensure_committed store now userId requestedMode dateKey
      in case buildDailyPuzzle2 dateKey requestedMode r now s1 of
           (Inl e, s2) \<Rightarrow> (Inl e, s2)
         | (Inr puzzle, s2) \<Rightarrow>
             (case score_guess2 s2 userId requestedMode dateKey now subredditGuess stageUsed puzzle
              of (payload, s3) \<Rightarrow> (Inr payload, s3)))"

section \<open>The normalisation as the specification words it\<close>

text \<open>
  Following the words of the specification, for the comparison with \<open>normalizeGuess\<close>:
  an optional leading \<open>/r/\<close> or \<open>r/\<close> prefix is stripped, then all characters outside
  the alphanumeric-and-underscore set are removed.
\<close>

definition normalizeGuess_spec :: "string \<Rightarrow> string" where
  "normalizeGuess_spec input =
     filter isWordChar
       (if prefix ''/r/'' input then drop 3 input
        else if prefix ''r/'' input then drop 2 input
        else input)"


section \<open>Sequences of requests\<close>

text \<open>
  Requests are handled one after the other, each on the store the previous one left. An
  entry of the trace is the store before the request, the response, and the store after.
\<close>

fun trace :: "('q \<Rightarrow> redis \<Rightarrow> 'a \<times> redis) \<Rightarrow> 'q list \<Rightarrow> redis \<Rightarrow> (redis \<times> 'a \<times> redis) list" where
  "trace step [] s = []"
| "trace step (q # qs) s = (case step q s of (res, s') \<Rightarrow> (s, res, s') # trace step qs s')"

datatype request = Guess Reddit int GuessBody | GiveUp Reddit int ModeBody

datatype response = GuessResponse GuessResponse | GiveUpResponse GiveUpResponse

fun handle :: "request \<Rightarrow> redis \<Rightarrow> (error + response) \<times> redis" where
  "handle (Guess r now body) s = map_prod (map_sum id GuessResponse) id (post_guess r now body s)"
| "handle (GiveUp r now body) s = map_prod (map_sum id GiveUpResponse) id (post_giveup r now body s)"

fun handle2 :: "Reddit \<times> int \<times> GuessBody \<Rightarrow> redis \<Rightarrow> (error + response) \<times> redis" where
  "handle2 (r, now, body) s = map_prod (map_sum id GuessResponse) id (post_guess2 r now body s)"

text \<open>The user, mode and day key a request resolves to.\<close>

fun request_key :: "request \<Rightarrow> string \<times> GameMode \<times> string" where
  "request_key (Guess r now body) =
     (currentUserId r, normalizeMode (gb_mode body), resolveDateKey now (gb_dateKey body))"
| "request_key (GiveUp r now body) =
     (currentUserId r, normalizeMode (mb_mode body), resolveDateKey now (mb_dateKey body))"

fun request_key2 :: "Reddit \<times> int \<times> GuessBody \<Rightarrow> string \<times> GameMode \<times> string" where
  "request_key2 (r, now, body) = (currentUserId r, normalizeMode (gb_mode body), utcDateKey now)"

text \<open>The time at which a request is handled.\<close>

fun request_time :: "request \<Rightarrow> int" where
  "request_time (Guess r now body) = now"
| "request_time (GiveUp r now body) = now"

fun request_time2 :: "Reddit \<times> int \<times> GuessBody \<Rightarrow> int" where
  "request_time2 (r, now, body) = now"

text \<open>A response to a guess that reports \<open>correct\<close>.\<close>

fun is_correct :: "error + response \<Rightarrow> bool" where
  "is_correct (Inr (GuessResponse payload)) = gr_correct payload"
| "is_correct other = False"

fun answer_of :: "error + response \<Rightarrow> string option" where
  "answer_of (Inr (GuessResponse payload)) = Some (gr_answer payload)"
| "answer_of (Inr (GiveUpResponse payload)) = Some (gu_answer payload)"
| "answer_of (Inl e) = None"

text \<open>
  The per-mode totals and the flags of a day as a request at the time \<open>t\<close> reads them,
  and whether a trace entry changes the score.
\<close>

definition totalScore :: "redis \<Rightarrow> int \<Rightarrow> string \<Rightarrow> GameMode \<Rightarrow> int" where
  "totalScore s t u m = readNumber s t (kScore u m)"

definition streak :: "redis \<Rightarrow> int \<Rightarrow> string \<Rightarrow> GameMode \<Rightarrow> int" where
  "streak s t u m = readNumber s t (kStreak u m)"

definition lastPlayedDay :: "redis \<Rightarrow> int \<Rightarrow> string \<Rightarrow> GameMode \<Rightarrow> string option" where
  "lastPlayedDay s t u m = readString s t (kLastDate u m)"

definition pointsAwardedFlag :: "redis \<Rightarrow> int \<Rightarrow> string \<Rightarrow> GameMode \<Rightarrow> string \<Rightarrow> bool" where
  "pointsAwardedFlag s t u m dk = is_one s t (kPlayed u m dk)"

definition score_changes :: "string \<Rightarrow> GameMode \<Rightarrow> int \<Rightarrow> redis \<times> 'a \<times> redis \<Rightarrow> bool" where
  "score_changes u m t e = (totalScore (snd (snd e)) t u m \<noteq> totalScore (fst e) t u m)"

definition score_increases :: "string \<Rightarrow> GameMode \<Rightarrow> int \<Rightarrow> redis \<times> 'a \<times> redis \<Rightarrow> bool" where
  "score_increases u m t e = (totalScore (fst e) t u m < totalScore (snd (snd e)) t u m)"

text \<open>Whether the first listing scores the guess.\<close>

definition awards ::
  "redis \<Rightarrow> int \<Rightarrow> string \<Rightarrow> GameMode \<Rightarrow> string \<Rightarrow> string \<Rightarrow> DailyPuzzle \<Rightarrow> bool" where
  "awards s t u m dk g p =
     (\<not> readCompleted s t u m dk
      \<and> toLowerCase (normalizeGuess g) = toLowerCase (pz_subreddit p)
      \<and> \<not> pointsAwardedFlag s t u m dk)"

section \<open>Lifetime of the keys of a day\<close>

text \<open>
  The commit, completed and played flags and the cached puzzle are written with an expiry
  of 48 hours (\<open>redis.expire(key, 60 * 60 * 48)\<close>), in milliseconds:
\<close>

definition flag_lifetime :: int where
  "flag_lifetime = 60 * 60 * 48 * 1000"

text \<open>
  A key is steady over the span from \<open>lo\<close> to \<open>hi\<close> when it does not expire within the
  span: it is absent, or has no expiry, or has expired by \<open>lo\<close>, or expires after \<open>hi\<close>.
  A store is settled for a user, mode and day when the keys of that user, mode and day
  are steady.
\<close>

definition steady :: "redis \<Rightarrow> int \<Rightarrow> int \<Rightarrow> string \<Rightarrow> bool" where
  "steady s lo hi key =
     (case s key of
        None \<Rightarrow> True
      | Some (v, None) \<Rightarrow> True
      | Some (v, Some expiry) \<Rightarrow> expiry \<le> lo \<or> hi < expiry)"

definition day_keys :: "string \<Rightarrow> GameMode \<Rightarrow> string \<Rightarrow> string list" where
  "day_keys u m dk =
     [kScore u m, kStreak u m, kLastDate u m, kPlayed u m dk, kCommit u m dk,
      kCompleted u m dk, cacheKey dk m]"

definition settled :: "redis \<Rightarrow> int \<Rightarrow> int \<Rightarrow> string \<Rightarrow> GameMode \<Rightarrow> string \<Rightarrow> bool" where
  "settled s lo hi u m dk = list_all (steady s lo hi) (day_keys u m dk)"

text \<open>
  What a request at the time \<open>now\<close> may do to a key: leave its entry as it is, or
  write it without an expiry or with the expiry of 48 hours from \<open>now\<close>.
\<close>

definition rewritten :: "redis \<Rightarrow> redis \<Rightarrow> int \<Rightarrow> string \<Rightarrow> bool" where
  "rewritten s s' now key =
     (s' key = s key
      \<or> (case s' key of
            None \<Rightarrow> False
          | Some (v, expiry) \<Rightarrow> expiry = None \<or> expiry = Some (now + flag_lifetime)))"

section \<open>Concrete requests and stores\<close>

text \<open>
  A snapshot in which everything resolves: one community in the global feed, one post in
  it, and three comments of which only the third passes the comment filter.
\<close>

definition ask_comments :: "Comment list" where
  "ask_comments =
     [\<lparr>c_id = ''t1_a'', c_body = Some ''[deleted]''\<rparr>,
      \<lparr>c_id = ''t1_b'', c_body = Some ''ten chars!''\<rparr>,
      \<lparr>c_id = ''t1_c'', c_body = Some ''  I once drove six hours for a sandwich.  ''\<rparr>]"


definition sub_reddit :: "string \<Rightarrow> Comment list option \<Rightarrow> Reddit" where
  "sub_reddit community comments =
     \<lparr>getNewPosts = (\<lambda>name limit.
        if name = ''all'' \<or> name = community then Some [post_in community ''t3_q1'']
        else Some []),
      getHotPosts = (\<lambda>name limit. None),
      getComments = (\<lambda>pid. comments),
      getSubredditInfoByName = (\<lambda>name. Info (info_with (JNum 45000000))),
      getCurrentUser = Some ''t2_user''\<rparr>"

definition ask_reddit :: "Comment list option \<Rightarrow> Reddit" where
  "ask_reddit = sub_reddit ''AskReddit''"

definition ask_puzzle :: "string \<Rightarrow> DailyPuzzle" where
  "ask_puzzle dateKey =
     \<lparr>pz_dateKey = dateKey, pz_mode = Medium, pz_subreddit = ''AskReddit'',
      pz_postId = ''t3_q1'', pz_postTitle = ''A title'', pz_postBody = [],
      pz_commentId = ''t1_c'', pz_commentBody = ''I once drove six hours for a sandwich.''\<rparr>"

text \<open>Noon UTC on 10, 11 and 12 January 2024.\<close>

definition noon_jan10 :: int where "noon_jan10 = 1704888000000"
definition noon_jan11 :: int where "noon_jan11 = 1704974400000"
definition noon_jan12 :: int where "noon_jan12 = 1705060800000"

definition empty_store :: redis where
  "empty_store = (\<lambda>key. None)"

text \<open>The store of a player with streak 4 whose last scored win was on 2024-01-09.\<close>

definition streak4_store :: redis where
  "streak4_store =
     empty_store(kScore ''t2_user'' Medium \<mapsto> (Num 340, None),
                 kStreak ''t2_user'' Medium \<mapsto> (Num 4, None),
                 kLastDate ''t2_user'' Medium \<mapsto> (Str ''2024-01-09'', None))"

text \<open>The same store once the medium puzzle of a day was cached at the time \<open>at\<close>.\<close>

definition cached_store :: "string \<Rightarrow> int \<Rightarrow> redis" where
  "cached_store dateKey at =
     streak4_store(cacheKey dateKey Medium \<mapsto>
       (Str (JSON_stringify (ask_puzzle dateKey)), Some (at + flag_lifetime)))"

definition guess_body :: "string \<Rightarrow> int \<Rightarrow> string \<Rightarrow> GuessBody" where
  "guess_body text stage dateKey =
     \<lparr>gb_subredditGuess = Some text, gb_stageUsed = Some stage, gb_mode = Some ''medium'',
      gb_dateKey = Some dateKey\<rparr>"


definition mode_body :: "string \<Rightarrow> ModeBody" where
  "mode_body dateKey = \<lparr>mb_mode = Some ''medium'', mb_dateKey = Some dateKey\<rparr>"

text \<open>
  Three guesses for one day: a wrong one, the right one at stage 2 an hour later, the
  right one again. In the first listing the third arrives a day later, with the client's
  day key; in the second listing, whose day key is the server's day, two hours later.
\<close>

definition demo_guesses :: "request list" where
  "demo_guesses =
     [Guess (ask_reddit (Some ask_comments)) noon_jan10 (guess_body ''funny'' 1 ''2024-01-10''),
      Guess (ask_reddit (Some ask_comments)) (noon_jan10 + 3600000)
        (guess_body ''r/AskReddit'' 2 ''2024-01-10''),
      Guess (ask_reddit (Some ask_comments)) noon_jan11 (guess_body ''AskReddit'' 1 ''2024-01-10'')]"

definition demo_guesses2 :: "(Reddit \<times> int \<times> GuessBody) list" where
  "demo_guesses2 =
     [(ask_reddit (Some ask_comments), noon_jan10, guess_body ''funny'' 1 ''2024-01-10''),
      (ask_reddit (Some ask_comments), noon_jan10 + 3600000,
       guess_body ''r/AskReddit'' 2 ''2024-01-10''),
      (ask_reddit (Some ask_comments), noon_jan10 + 7200000,
       guess_body ''AskReddit'' 1 ''2024-01-10'')]"

text \<open>
  The store after the player has finished the medium puzzle of a day without a win, at
  the time \<open>at\<close>.
\<close>

definition completed_store :: "string \<Rightarrow> int \<Rightarrow> redis" where
  "completed_store dateKey at =
     (cached_store dateKey at)
       (kCommit ''t2_user'' Medium dateKey \<mapsto> (Str ''1'', Some (at + flag_lifetime)),
        kCompleted ''t2_user'' Medium dateKey \<mapsto> (Str ''1'', Some (at + flag_lifetime)))"

text \<open>A correct guess, and a give-up a day later, after the day was finished.\<close>

definition demo_replay :: "request list" where
  "demo_replay =
     [Guess (ask_reddit (Some ask_comments)) noon_jan10 (guess_body ''AskReddit'' 1 ''2024-01-10''),
      GiveUp (ask_reddit (Some ask_comments)) noon_jan11 (mode_body ''2024-01-10'')]"

text \<open>
  Two requests for the day key 2024-01-10 that are 48 hours and one minute apart: at 00:01
  UTC on 9 January the key is the server's tomorrow, at 00:02 UTC on 11 January its
  yesterday.
\<close>

definition jan09_0001 :: int where "jan09_0001 = 1704758460000"
definition jan11_0002 :: int where "jan11_0002 = 1704931320000"

definition late_guesses :: "request list" where
  "late_guesses =
     [Guess (ask_reddit (Some ask_comments)) jan09_0001 (guess_body ''AskReddit'' 1 ''2024-01-10''),
      Guess (ask_reddit (Some ask_comments)) jan11_0002 (guess_body ''AskReddit'' 1 ''2024-01-10'')]"

text \<open>A give-up, and 48 hours and one minute later a guess, when the feed has moved on.\<close>

definition late_replay :: "request list" where
  "late_replay =
     [GiveUp (ask_reddit (Some ask_comments)) jan09_0001 (mode_body ''2024-01-10''),
      Guess (sub_reddit ''pics'' (Some ask_comments)) jan11_0002
        (guess_body ''pics'' 1 ''2024-01-10'')]"

text \<open>
  A snapshot with more to choose from: four posts of three communities in the global
  feed, three posts in each community, and five comments under each post, of which the
  last three pass the comment filter.
\<close>

definition busy_comments :: "string \<Rightarrow> Comment list" where
  "busy_comments pid =
     [\<lparr>c_id = ''t1_1'', c_body = Some ''[removed]''\<rparr>,
      \<lparr>c_id = ''t1_2'', c_body = None\<rparr>,
      \<lparr>c_id = ''t1_3'', c_body = Some (''First long enough comment under '' @ pid)\<rparr>,
      \<lparr>c_id = ''t1_4'', c_body = Some (''Second long enough comment under '' @ pid)\<rparr>,
      \<lparr>c_id = ''t1_5'', c_body = Some (''Third long enough comment under '' @ pid)\<rparr>]"

definition busy_reddit :: Reddit where
  "busy_reddit =
     \<lparr>getNewPosts = (\<lambda>name limit.
        if name = ''all''
        then Some [post_in ''pics'' ''t3_a1'', post_in ''AskReddit'' ''t3_a2'',
                   post_in ''aww'' ''t3_a3'', post_in ''pics'' ''t3_a4'']
        else Some [post_in name (name @ ''_p1''), post_in name (name @ ''_p2''),
                   post_in name (name @ ''_p3'')]),
      getHotPosts = (\<lambda>name limit. None),
      getComments = (\<lambda>pid. Some (busy_comments pid)),
      getSubredditInfoByName = (\<lambda>name. Info (info_with (JNum 45000000))),
      getCurrentUser = Some ''t2_user''\<rparr>"


section \<open>Properties of the sampler and the scan\<close>

text \<open>
  Two known values: the 32-bit FNV-1a hash of \<open>foobar\<close> is \<open>0xbf9cf968\<close>, and one
  xorshift step (13, 17, 5) takes 1 to 270369.
\<close>

lemma sampler_vectors:
  "unat (seedFromString ''foobar'') = 3214735720" "xorshift32 1 = 270369"
  by code_simp+

lemma pickIndex_less: "0 < len \<Longrightarrow> pickIndex len seed < len"
  by (simp add: pickIndex_def Let_def)

lemma pickIndex_nth_mem: "xs \<noteq> [] \<Longrightarrow> xs ! pickIndex (length xs) seed \<in> set xs"
  by (simp add: pickIndex_less)

lemma first_finite_known: "first_finite vs \<noteq> 0 \<Longrightarrow> list_ex is_finite_number vs"
  by (induction vs rule: first_finite.induct) auto

lemma gate_qualifies:
  assumes "safeSubInfo r sub = Some info"
    and "0 < getSubscriberCount (Some info)"
    and "minSubs \<le> getSubscriberCount (Some info)"
  shows "qualifies r minSubs (sub, getSubscriberCount (Some info))"
proof -
  from assms(1) have look: "getSubredditInfoByName r sub = Info info"
    by (auto simp: safeSubInfo_def split: info_result.splits)
  from assms(2) have "first_finite (count_fields (Some info)) \<noteq> 0"
    by (simp add: getSubscriberCount_def)
  then have "list_ex is_finite_number (count_fields (Some info))"
    by (rule first_finite_known)
  with look assms show ?thesis
    by (simp add: qualifies_def knownCount_def)
qed

lemma scan_loop_qualifying:
  "scan_loop r minSubs subs qs us = (qs', us') \<Longrightarrow> list_all (qualifies r minSubs) qs
     \<Longrightarrow> list_all (qualifies r minSubs) qs'"
proof (induction r minSubs subs qs us rule: scan_loop.induct)
  case (1 r minSubs qualifying unknownButSafe)
  then show ?case by simp
next
  case (2 r minSubs sub rest qualifying unknownButSafe)
  then show ?case
    by (auto simp: Let_def gate_qualifies split: option.splits if_splits)
qed

lemma length_shuffle_loop: "length (shuffle_loop k x a) = length a"
  by (induction k x a rule: shuffle_loop.induct) (simp_all add: Let_def)

lemma length_subsToScan:
  "length (subsToScan dateKey mode posts) = length (uniqueSubs (truthy_subs posts))"
  by (simp add: subsToScan_def shuffleDeterministic_def length_shuffle_loop)

lemma scan_buckets_qualifying:
  "list_all (qualifies r (minSubsForMode mode)) (fst (scan_buckets dateKey mode r posts))"
proof -
  obtain qs us where eq: "scan_buckets dateKey mode r posts = (qs, us)"
    by (cases "scan_buckets dateKey mode r posts")
  then have "list_all (qualifies r (minSubsForMode mode)) qs"
    unfolding scan_buckets_def by (rule scan_loop_qualifying) simp
  with eq show ?thesis by simp
qed

text \<open>The bucket the deterministic pick draws from, for the two stricter tiers.\<close>

lemma easy_bucket_subset:
  "set (take 12 (sort_key (\<lambda>q. - snd q) qs)) \<subseteq> set (qs :: (string \<times> int) list)"
  using set_take_subset [of 12 "sort_key (\<lambda>q. - snd q) qs"] by simp

lemma easy_bucket_nonempty:
  "(qs :: (string \<times> int) list) \<noteq> [] \<Longrightarrow> take 12 (sort_key (\<lambda>q. - snd q) qs) \<noteq> []"
proof -
  assume "qs \<noteq> []"
  then have "length (sort_key (\<lambda>q. - snd q) qs) \<noteq> 0" by simp
  then show ?thesis by (metis length_0_conv take_eq_Nil zero_neq_numeral)
qed

lemma pick_qualified:
  assumes posts: "list_posts r ''all'' 150 = Some posts"
    and mode: "mode \<noteq> Hard"
    and ne: "fst (scan_buckets dateKey mode r posts) \<noteq> []"
  shows "\<exists>q \<in> set (fst (scan_buckets dateKey mode r posts)).
           pickSubredditForMode2 dateKey mode r = Inr (fst q)"
proof -
  obtain qs us where eq: "scan_buckets dateKey mode r posts = (qs, us)"
    by (cases "scan_buckets dateKey mode r posts")
  with ne have qs: "qs \<noteq> []" by simp
  have cands: "uniqueSubs (truthy_subs posts) \<noteq> []"
  proof
    assume "uniqueSubs (truthy_subs posts) = []"
    then have "subsToScan dateKey mode posts = []"
      by (simp add: subsToScan_def shuffleDeterministic_def)
    then have "scan_buckets dateKey mode r posts = ([], [])"
      by (simp add: scan_buckets_def)
    with eq qs show False by simp
  qed
  define bucket where
    "bucket = (if mode = Easy then take 12 (sort_key (\<lambda>q. - snd q) qs) else qs)"
  have "bucket \<noteq> []" and sub: "set bucket \<subseteq> set qs"
    using qs easy_bucket_nonempty [of qs] easy_bucket_subset [of qs]
    by (auto simp: bucket_def)
  then have "bucket ! pickIndex (length bucket)
      (seedFromString (dateKey @ '':'' @ mode_str mode @ '':pickQualified'')) \<in> set qs"
    using pickIndex_nth_mem by blast
  moreover have "pickSubredditForMode2 dateKey mode r =
      Inr (fst (bucket ! pickIndex (length bucket)
        (seedFromString (dateKey @ '':'' @ mode_str mode @ '':pickQualified''))))"
    using posts mode cands eq qs
    by (simp add: pickSubredditForMode2_def Let_def bucket_def)
  ultimately show ?thesis using eq by auto
qed

lemma pick_unqualified:
  assumes posts: "list_posts r ''all'' 150 = Some posts"
    and mode: "mode \<noteq> Hard"
    and empty: "fst (scan_buckets dateKey mode r posts) = []"
    and res: "pickSubredditForMode2 dateKey mode r = Inr sub"
  shows "sub \<in> set (snd (scan_buckets dateKey mode r posts))
       \<or> (snd (scan_buckets dateKey mode r posts) = []
          \<and> (sub = ''all'' \<or> sub \<in> set (subsToScan dateKey mode posts)))"
proof -
  obtain qs us where eq: "scan_buckets dateKey mode r posts = (qs, us)"
    by (cases "scan_buckets dateKey mode r posts")
  with empty have qs: "qs = []" by simp
  show ?thesis
  proof (cases "uniqueSubs (truthy_subs posts) = []")
    case True
    then have "subsToScan dateKey mode posts = []"
      by (simp add: subsToScan_def shuffleDeterministic_def)
    then have "scan_buckets dateKey mode r posts = ([], [])"
      by (simp add: scan_buckets_def)
    moreover from True posts res have "sub = ''all''"
      by (simp add: pickSubredditForMode2_def)
    ultimately show ?thesis by simp
  next
    case cands: False
    show ?thesis
    proof (cases "us = []")
      case True
      from cands have ne: "subsToScan dateKey mode posts \<noteq> []"
        using length_subsToScan [of dateKey mode posts] by auto
      from True posts mode cands eq qs res
      have "sub = subsToScan dateKey mode posts ! pickIndex (length (subsToScan dateKey mode posts))
          (seedFromString (dateKey @ '':'' @ mode_str mode @ '':scan''))"
        by (simp add: pickSubredditForMode2_def Let_def)
      with ne True eq show ?thesis by (simp add: pickIndex_nth_mem)
    next
      case False
      with posts mode cands eq qs res
      have "sub = us ! pickIndex (length us)
          (seedFromString (dateKey @ '':'' @ mode_str mode @ '':pickUnknown''))"
        by (simp add: pickSubredditForMode2_def Let_def)
      with False eq show ?thesis by (simp add: pickIndex_nth_mem)
    qed
  qed
qed
lemma gate_unknown:
  "safeSubInfo r sub = Some info \<Longrightarrow> \<not> isNsfwSub (Some info)
     \<Longrightarrow> \<not> 0 < getSubscriberCount (Some info) \<Longrightarrow> unknown_safe r sub"
  by (simp add: unknown_safe_def)

lemma scan_loop_unknown:
  "scan_loop r minSubs subs qs us = (qs', us') \<Longrightarrow> list_all (unknown_safe r) us
     \<Longrightarrow> list_all (unknown_safe r) us'"
proof (induction r minSubs subs qs us rule: scan_loop.induct)
  case (1 r minSubs qualifying unknownButSafe)
  then show ?case by simp
next
  case (2 r minSubs sub rest qualifying unknownButSafe)
  then show ?case
    by (auto simp: Let_def gate_unknown split: option.splits if_splits)
qed

lemma scan_buckets_unknown:
  "list_all (unknown_safe r) (snd (scan_buckets dateKey mode r posts))"
proof -
  obtain qs us where eq: "scan_buckets dateKey mode r posts = (qs, us)"
    by (cases "scan_buckets dateKey mode r posts")
  then have "list_all (unknown_safe r) us"
    unfolding scan_buckets_def by (rule scan_loop_unknown) simp
  with eq show ?thesis by simp
qed

section \<open>C1: unknown subscriber counts and the two stricter tiers\<close>

text \<open>
  C1, as the second listing implements it. For the easy and the medium tier: every entry
  of the qualifying bucket is a community whose lookup succeeded with a known, positive
  subscriber count that reaches the tier's minimum; every entry of the unknown-but-safe
  bucket is a community whose lookup succeeded, that is not flagged adult and whose count
  is not positive; and a community with an unknown count (lookup failed or no count field)
  is returned only when the scan found no qualifying candidate, either from the
  unknown-but-safe bucket or, when that bucket is empty too, by the last-resort pick over
  the whole shuffled list (or as the constant \<open>all\<close> when the feed names no community).
\<close>

theorem unknown_count_never_qualifies:
  assumes "mode \<noteq> Hard" and "list_posts r ''all'' 150 = Some posts"
  shows "list_all (qualifies r (minSubsForMode mode)) (fst (scan_buckets dateKey mode r posts))
       \<and> list_all (unknown_safe r) (snd (scan_buckets dateKey mode r posts))
       \<and> (\<forall>sub. pickSubredditForMode2 dateKey mode r = Inr sub \<and> knownCount r sub = None \<longrightarrow>
            fst (scan_buckets dateKey mode r posts) = []
            \<and> (sub \<in> set (snd (scan_buckets dateKey mode r posts))
               \<or> (snd (scan_buckets dateKey mode r posts) = []
                  \<and> (sub = ''all'' \<or> sub \<in> set (subsToScan dateKey mode posts)))))"
proof (intro conjI allI impI)
  show "list_all (qualifies r (minSubsForMode mode)) (fst (scan_buckets dateKey mode r posts))"
    by (rule scan_buckets_qualifying)
  show "list_all (unknown_safe r) (snd (scan_buckets dateKey mode r posts))"
    by (rule scan_buckets_unknown)
next
  fix sub
  assume a: "pickSubredditForMode2 dateKey mode r = Inr sub \<and> knownCount r sub = None"
  show empty: "fst (scan_buckets dateKey mode r posts) = []"
  proof (rule ccontr)
    assume "fst (scan_buckets dateKey mode r posts) \<noteq> []"
    from pick_qualified [OF assms(2) assms(1) this]
    obtain q where q: "q \<in> set (fst (scan_buckets dateKey mode r posts))"
      and res: "pickSubredditForMode2 dateKey mode r = Inr (fst q)"
      by blast
    from q scan_buckets_qualifying [of r mode dateKey posts]
    have "qualifies r (minSubsForMode mode) q"
      by (simp add: list_all_iff)
    then have "knownCount r (fst q) = Some (snd q)"
      by (simp add: qualifies_def)
    with a res show False by simp
  qed
  from a have "pickSubredditForMode2 dateKey mode r = Inr sub" by simp
  from pick_unqualified [OF assms(2) assms(1) empty this]
  show "sub \<in> set (snd (scan_buckets dateKey mode r posts))
       \<or> (snd (scan_buckets dateKey mode r posts) = []
          \<and> (sub = ''all'' \<or> sub \<in> set (subsToScan dateKey mode posts)))" .
qed

theorem unknown_count_never_qualifies_witness:
  "Easy \<noteq> Hard
   \<and> list_posts (two_subs alpha_unknown_beta_500) ''all'' 150 = Some two_posts
   \<and> pickSubredditForMode2 ''2024-01-10'' Easy (two_subs alpha_unknown_beta_500) = Inr ''alpha''
   \<and> knownCount (two_subs alpha_unknown_beta_500) ''alpha'' = None
   \<and> fst (scan_buckets ''2024-01-10'' Easy (two_subs alpha_unknown_beta_500) two_posts) = []
   \<and> snd (scan_buckets ''2024-01-10'' Easy (two_subs alpha_unknown_beta_500) two_posts) = [''alpha'']"
proof -
  have h1: "list_posts (two_subs alpha_unknown_beta_500) ''all'' 150 = Some two_posts"
    by (simp add: list_posts_def two_subs_def)
  have h2: "pickSubredditForMode2 ''2024-01-10'' Easy (two_subs alpha_unknown_beta_500) = Inr ''alpha''"
    by code_simp
  have h3: "knownCount (two_subs alpha_unknown_beta_500) ''alpha'' = None"
    by code_simp
  have h4: "snd (scan_buckets ''2024-01-10'' Easy (two_subs alpha_unknown_beta_500) two_posts) = [''alpha'']"
    by code_simp
  have "fst (scan_buckets ''2024-01-10'' Easy (two_subs alpha_unknown_beta_500) two_posts) = []"
    using unknown_count_never_qualifies [OF _ h1, of Easy "''2024-01-10''"] h2 h3 by blast
  with h1 h2 h3 h4 show ?thesis by simp
qed

text \<open>
  The claim as stated fails on the second listing: when every metadata lookup throws, both
  buckets stay empty and the last-resort pick returns a community whose lookup failed,
  although it never was in the unknown-but-safe bucket.
\<close>

theorem unknown_returned_outside_bucket:
  "pickSubredditForMode2 ''2024-01-10'' Easy (two_subs all_lookups_fail) = Inr ''beta''
   \<and> getSubredditInfoByName (two_subs all_lookups_fail) ''beta'' = InfoThrows
   \<and> scan_buckets ''2024-01-10'' Easy (two_subs all_lookups_fail) two_posts = ([], [])"
  by code_simp

text \<open>
  The first listing has no buckets: its gate \<open>subs === 0 || subs >= minSubs\<close> returns a
  community with no count field for the easy tier while a community with five million
  subscribers is among the candidates.
\<close>

lemma first_listing_lenient_gate:
  "pickSubredditForMode ''2024-01-10'' Easy (two_subs alpha_unknown_beta_5M) = Inr ''alpha''
   \<and> knownCount (two_subs alpha_unknown_beta_5M) ''alpha'' = None
   \<and> knownCount (two_subs alpha_unknown_beta_5M) ''beta'' = Some 5000000"
  by code_simp

section \<open>C5: the counts of the easy and the medium selection\<close>

text \<open>
  C5, as the second listing implements it: when the scans of the easy and of the medium
  tier both find a qualifying community, the easy selection has a known count of at least
  1000000 (hence at least the medium tier's minimum of 10000) and the medium selection has
  a known count of at least 10000. The two selected counts are not ordered.
\<close>

theorem tier_thresholds:
  assumes "list_posts r ''all'' 150 = Some posts"
    and "fst (scan_buckets dateKey Easy r posts) \<noteq> []"
    and "fst (scan_buckets dateKey Medium r posts) \<noteq> []"
  shows "\<exists>e m ce cm.
           pickSubredditForMode2 dateKey Easy r = Inr e
         \<and> pickSubredditForMode2 dateKey Medium r = Inr m
         \<and> knownCount r e = Some ce \<and> knownCount r m = Some cm
         \<and> 1000000 \<le> ce \<and> minSubsForMode Medium \<le> ce \<and> 10000 \<le> cm"
proof -
  from pick_qualified [OF assms(1) _ assms(2)]
  obtain qe where qe: "qe \<in> set (fst (scan_buckets dateKey Easy r posts))"
    and re: "pickSubredditForMode2 dateKey Easy r = Inr (fst qe)"
    by auto
  from pick_qualified [OF assms(1) _ assms(3)]
  obtain qm where qm: "qm \<in> set (fst (scan_buckets dateKey Medium r posts))"
    and rm: "pickSubredditForMode2 dateKey Medium r = Inr (fst qm)"
    by auto
  from qe scan_buckets_qualifying [of r Easy dateKey posts]
  have "qualifies r 1000000 qe" by (simp add: list_all_iff)
  moreover from qm scan_buckets_qualifying [of r Medium dateKey posts]
  have "qualifies r 10000 qm" by (simp add: list_all_iff)
  ultimately show ?thesis
    using re rm by (auto simp: qualifies_def)
qed

theorem tier_thresholds_witness:
  "list_posts (two_subs alpha_1M_beta_5M) ''all'' 150 = Some two_posts
   \<and> fst (scan_buckets ''2024-01-13'' Easy (two_subs alpha_1M_beta_5M) two_posts) \<noteq> []
   \<and> fst (scan_buckets ''2024-01-13'' Medium (two_subs alpha_1M_beta_5M) two_posts) \<noteq> []
   \<and> (\<exists>e m ce cm.
           pickSubredditForMode2 ''2024-01-13'' Easy (two_subs alpha_1M_beta_5M) = Inr e
         \<and> pickSubredditForMode2 ''2024-01-13'' Medium (two_subs alpha_1M_beta_5M) = Inr m
         \<and> knownCount (two_subs alpha_1M_beta_5M) e = Some ce
         \<and> knownCount (two_subs alpha_1M_beta_5M) m = Some cm
         \<and> 1000000 \<le> ce \<and> minSubsForMode Medium \<le> ce \<and> 10000 \<le> cm)"
proof -
  have h1: "list_posts (two_subs alpha_1M_beta_5M) ''all'' 150 = Some two_posts"
    by (simp add: list_posts_def two_subs_def)
  have h2: "fst (scan_buckets ''2024-01-13'' Easy (two_subs alpha_1M_beta_5M) two_posts) \<noteq> []"
    by code_simp
  have h3: "fst (scan_buckets ''2024-01-13'' Medium (two_subs alpha_1M_beta_5M) two_posts) \<noteq> []"
    by code_simp
  from tier_thresholds [OF h1 h2 h3] h1 h2 h3 show ?thesis by blast
qed

text \<open>
  The claim as stated fails: on this snapshot both selections have known counts, and the
  easy tier selects the community with one million subscribers while the medium tier
  selects the one with five million.
\<close>

theorem easy_count_below_medium_count:
  "pickSubredditForMode2 ''2024-01-13'' Easy (two_subs alpha_1M_beta_5M) = Inr ''alpha''
   \<and> pickSubredditForMode2 ''2024-01-13'' Medium (two_subs alpha_1M_beta_5M) = Inr ''beta''
   \<and> knownCount (two_subs alpha_1M_beta_5M) ''alpha'' = Some 1000000
   \<and> knownCount (two_subs alpha_1M_beta_5M) ''beta'' = Some 5000000
   \<and> (1000000 :: int) < 5000000"
  by code_simp


section \<open>Keys of the store\<close>

lemma user_keys_distinct:
  "kScore u m \<noteq> kStreak u m" "kScore u m \<noteq> kLastDate u m"
  "kScore u m \<noteq> kPlayed u m dk" "kScore u m \<noteq> kCommit u m dk"
  "kScore u m \<noteq> kCompleted u m dk"
  "kStreak u m \<noteq> kLastDate u m" "kStreak u m \<noteq> kPlayed u m dk"
  "kStreak u m \<noteq> kCommit u m dk" "kStreak u m \<noteq> kCompleted u m dk"
  "kLastDate u m \<noteq> kPlayed u m dk" "kLastDate u m \<noteq> kCommit u m dk"
  "kLastDate u m \<noteq> kCompleted u m dk"
  "kPlayed u m dk \<noteq> kCommit u m dk" "kPlayed u m dk \<noteq> kCompleted u m dk"
  "kCommit u m dk \<noteq> kCompleted u m dk"
  by (simp_all add: kScore_def kStreak_def kLastDate_def kPlayed_def kCommit_def kCompleted_def)

lemmas user_keys_distinct' = user_keys_distinct user_keys_distinct [symmetric]

lemma cacheKey_not_user:
  "cacheKey dk' m' \<noteq> kScore u m" "cacheKey dk' m' \<noteq> kStreak u m"
  "cacheKey dk' m' \<noteq> kLastDate u m" "cacheKey dk' m' \<noteq> kPlayed u m dk"
  "cacheKey dk' m' \<noteq> kCommit u m dk" "cacheKey dk' m' \<noteq> kCompleted u m dk"
  by (simp_all add: cacheKey_def kScore_def kStreak_def kLastDate_def kPlayed_def kCommit_def
      kCompleted_def)

lemmas cacheKey_not_user' = cacheKey_not_user cacheKey_not_user [symmetric]

section \<open>Round trip of a serialised puzzle\<close>

lemma expect_append: "expect pre (pre @ rest) = Some rest"
  by (induction pre) simp_all

lemma hex_value_hex_digit: "k < 16 \<Longrightarrow> hex_value (hex_digit k) = Some k"
  by (auto simp: hex_value_def hex_digit_def charCodeAt_def Let_def)

lemma char_code_eq: "charCodeAt c = n \<Longrightarrow> c = char_of n"
  by (auto simp: charCodeAt_def)

lemma parse_chars_escape1:
  "parse_chars (json_escape c @ text) = map_option (\<lambda>(s, r). (c # s, r)) (parse_chars text)"
proof -
  let ?n = "charCodeAt c"
  have hex0: "hex_value CHR ''0'' = Some 0"
    by (simp add: hex_value_def charCodeAt_def)
  have split: "char_of (16 * (?n div 16) + ?n mod 16) = c" "char_of ?n = c"
    by (simp_all add: charCodeAt_def)
  show ?thesis
  proof (cases "?n < 32")
    case True
    then have lt: "?n div 16 < 16" "?n mod 16 < 16" by auto
    show ?thesis
      using True
      by (auto simp: json_escape_def Let_def dquote_def backslash_def unescape_def hex0
          hex_value_hex_digit [OF lt(1)] hex_value_hex_digit [OF lt(2)] split
          dest: char_code_eq)
  next
    case False
    then show ?thesis
      by (auto simp: json_escape_def Let_def dquote_def backslash_def unescape_def
          dest: char_code_eq)
  qed
qed

lemma parse_chars_escaped:
  "parse_chars (concat (map json_escape s) @ dquote # rest) = Some (s, rest)"
  by (induction s) (simp_all add: parse_chars_escape1)

lemma parse_property_roundtrip:
  "parse_property name (json_property name v @ rest) = Some (v, rest)"
proof -
  have "json_property name v @ rest
      = (json_string name @ '':'' @ [dquote]) @ (concat (map json_escape v) @ dquote # rest)"
    by (simp add: json_property_def json_string_def)
  then show ?thesis
    by (simp only: parse_property_def expect_append option.simps parse_chars_escaped)
qed

lemma mode_of_str_roundtrip: "mode_of_str (mode_str m) = Some m"
  by (cases m) (simp_all add: mode_of_str_def)

lemma JSON_roundtrip: "JSON_parse (JSON_stringify p) = Some p"
proof -
  have comma: "expect '','' ('','' @ rest) = Some rest" for rest
    by simp
  have brace: "expect ''{'' (''{'' @ rest) = Some rest" for rest
    by simp
  show ?thesis
    unfolding JSON_parse_def JSON_stringify_def
    by (simp only: brace comma parse_property_roundtrip mode_of_str_roundtrip
        bind.bind_lunit case_prod_conv if_True append_assoc append_Nil2 refl) simp
qed

lemma JSON_stringify_nonempty: "JSON_stringify p \<noteq> []"
  by (simp add: JSON_stringify_def)


section \<open>Reads and writes of the store\<close>

lemma redis_get_upd:
  "redis_get (s(k \<mapsto> (v, ex))) t k' =
     (if k' = k then (case ex of None \<Rightarrow> Some v | Some e \<Rightarrow> if t < e then Some v else None)
      else redis_get s t k')"
  by (simp add: redis_get_def)

lemma redis_get_cong: "s' k = s k \<Longrightarrow> redis_get s' t k = redis_get s t k"
  by (simp add: redis_get_def)

lemma set_expire:
  "redis_expire (redis_set s k v) now k seconds = s(k \<mapsto> (v, Some (now + seconds * 1000)))"
  by (simp add: redis_expire_def redis_set_def redis_get_def)

lemma commitMode_eq:
  "commitMode s now u m dk = s(kCommit u m dk \<mapsto> (Str ''1'', Some (now + flag_lifetime)))"
  by (simp add: commitMode_def Let_def set_expire flag_lifetime_def)

lemma setCompleted_eq:
  "setCompleted s now u m dk = s(kCompleted u m dk \<mapsto> (Str ''1'', Some (now + flag_lifetime)))"
  by (simp add: setCompleted_def Let_def set_expire flag_lifetime_def)

lemma flag_lifetime_pos: "0 < flag_lifetime"
  by (simp add: flag_lifetime_def)

lemma reads_cong:
  "s' k = s k \<Longrightarrow> readNumber s' t k = readNumber s t k"
  "s' k = s k \<Longrightarrow> readString s' t k = readString s t k"
  "s' k = s k \<Longrightarrow> is_one s' t k = is_one s t k"
  by (simp_all add: readNumber_def readString_def is_one_def redis_get_def)

section \<open>Frame of the puzzle cache\<close>

lemma cache_lookup_cong:
  "s' (cacheKey dk m) = s (cacheKey dk m) \<Longrightarrow> cache_lookup s' t dk m = cache_lookup s t dk m"
  by (simp add: cache_lookup_def redis_get_def)

lemma build_with_frame:
  assumes "build_with select dk m r now s = (res, s')" and "k \<noteq> cacheKey dk m"
  shows "s' k = s k"
  using assms
  by (auto simp: build_with_def set_expire flag_lifetime_def Let_def
      split: option.splits rvalue.splits list.splits sum.splits)

lemma build_with_cases:
  assumes "build_with select dk m r now s = (res, s')"
  shows "s' = s
         \<or> (\<exists>p. res = Inr p
                \<and> s' = s(cacheKey dk m \<mapsto> (Str (JSON_stringify p), Some (now + flag_lifetime))))"
proof (cases res)
  case (Inl e)
  with assms show ?thesis
    by (auto simp: build_with_def set_expire flag_lifetime_def Let_def
        split: option.splits rvalue.splits list.splits sum.splits)
next
  case (Inr p)
  with assms have
    "s' = s \<or> s' = s(cacheKey dk m \<mapsto> (Str (JSON_stringify p), Some (now + flag_lifetime)))"
    by (auto simp: build_with_def set_expire flag_lifetime_def Let_def
        split: option.splits rvalue.splits list.splits sum.splits)
  with Inr show ?thesis by blast
qed

lemma cache_lookup_written:
  "cache_lookup (s(cacheKey dk m \<mapsto> (Str (JSON_stringify p), Some ex))) t dk m =
     (if t < ex then Some p else None)"
proof -
  obtain c cs where "JSON_stringify p = c # cs"
    using JSON_stringify_nonempty [of p] by (cases "JSON_stringify p") auto
  then show ?thesis
    using JSON_roundtrip [of p] by (simp add: cache_lookup_def redis_get_upd)
qed

lemma build_with_hit:
  "cache_lookup s now dk m = Some p \<Longrightarrow> build_with select dk m r now s = (Inr p, s)"
  by (auto simp: build_with_def cache_lookup_def
      split: option.splits rvalue.splits list.splits)

lemma build_with_miss:
  assumes "redis_get s now (cacheKey dk m) = None \<or> redis_get s now (cacheKey dk m) = Some (Str [])"
  shows "build_with select dk m r now s =
           (case select dk m r of
              Inl e \<Rightarrow> (Inl e, s)
            | Inr subreddit \<Rightarrow>
                (case build_from dk m r subreddit of
                   Inl e \<Rightarrow> (Inl e, s)
                 | Inr puzzle \<Rightarrow>
                     (Inr puzzle,
                      s(cacheKey dk m \<mapsto> (Str (JSON_stringify puzzle), Some (now + flag_lifetime))))))"
  using assms
  by (auto simp: build_with_def set_expire flag_lifetime_def Let_def split: sum.splits)

lemma build_with_caches:
  assumes "build_with select dk m r now s = (Inr p, s')"
  shows "cache_lookup s' now dk m = Some p"
proof (cases "cache_lookup s now dk m")
  case (Some q)
  with assms build_with_hit [OF Some, of select r] show ?thesis by simp
next
  case None
  with assms have
    "s' = s(cacheKey dk m \<mapsto> (Str (JSON_stringify p), Some (now + flag_lifetime)))"
    by (auto simp: build_with_def cache_lookup_def set_expire flag_lifetime_def Let_def
        split: option.splits rvalue.splits list.splits sum.splits)
  then show ?thesis
    by (simp add: cache_lookup_written flag_lifetime_pos)
qed

section \<open>Effect of a guess on the store\<close>

lemma ensure_committed_frame:
  "k \<noteq> kCommit u m dk \<Longrightarrow> ensure_committed s now u m dk k = s k"
  by (simp add: ensure_committed_def commitMode_eq)

lemma ensure_committed_sets:
  "readCommitted (ensure_committed s now u m dk) now u m dk"
  by (simp add: ensure_committed_def commitMode_eq readCommitted_def is_one_def redis_get_upd
      flag_lifetime_pos)

lemma award_win_eq:
  "award_win s u m dk now pts =
     s(kPlayed u m dk \<mapsto> (Str ''1'', Some (now + flag_lifetime)),
       kScore u m \<mapsto> (Num (readNumber s now (kScore u m) + pts), None),
       kStreak u m \<mapsto>
         (Num (if (case readString s now (kLastDate u m) of None \<Rightarrow> [] | Some d \<Rightarrow> d)
                    = utcDateKey (now - 24 * 60 * 60 * 1000)
               then readNumber s now (kStreak u m) + 1 else 1), None),
       kLastDate u m \<mapsto> (Str dk, None))"
  unfolding award_win_def Let_def set_expire
  by (simp add: flag_lifetime_def redis_set_def readNumber_def readString_def redis_get_upd
      user_keys_distinct')

lemma award_win_reads:
  "readNumber (award_win s u m dk now pts) t (kScore u m) = readNumber s now (kScore u m) + pts"
  "readNumber (award_win s u m dk now pts) t (kStreak u m) =
     (if (case readString s now (kLastDate u m) of None \<Rightarrow> [] | Some d \<Rightarrow> d)
           = utcDateKey (now - 24 * 60 * 60 * 1000)
      then readNumber s now (kStreak u m) + 1 else 1)"
  "readString (award_win s u m dk now pts) t (kLastDate u m) = Some dk"
  "is_one (award_win s u m dk now pts) t (kPlayed u m dk) = (t < now + flag_lifetime)"
  "award_win s u m dk now pts (kCompleted u m dk) = s (kCompleted u m dk)"
  "award_win s u m dk now pts (kCommit u m dk) = s (kCommit u m dk)"
  by (simp_all add: award_win_eq readNumber_def readString_def is_one_def redis_get_upd
      user_keys_distinct')

lemma award_win_frame:
  "k \<notin> {kPlayed u m dk, kScore u m, kStreak u m, kLastDate u m}
     \<Longrightarrow> award_win s u m dk now pts k = s k"
  by (simp add: award_win_eq)

section \<open>One guess, first listing\<close>

lemma score_guess_response:
  assumes "score_guess s u m dk now g st p = (payload, s')"
  shows "gr_correct payload = (toLowerCase (normalizeGuess g) = toLowerCase (pz_subreddit p))"
    and "gr_answer payload = pz_subreddit p"
    and "gr_stageUsed payload = st"
    and "gr_modeLocked payload = m"
    and "gr_totalScore payload = totalScore s' now u m"
    and "gr_streak payload = streak s' now u m"
    and "gr_completedToday payload = Some (readCompleted s' now u m dk)"
  using assms by (auto simp: score_guess_def Let_def totalScore_def streak_def)

lemma score_guess_eq:
  assumes "score_guess s u m dk now g st p = (payload, s')"
  shows "s' = (if \<not> readCompleted s now u m dk \<and> (gr_correct payload \<or> st = 3)
              then setCompleted
                     (if awards s now u m dk g p
                      then award_win s u m dk now (stagePoints st) else s) now u m dk
              else if awards s now u m dk g p
                   then award_win s u m dk now (stagePoints st) else s)"
proof -
  have c: "gr_correct payload = (toLowerCase (normalizeGuess g) = toLowerCase (pz_subreddit p))"
    using assms by (rule score_guess_response)
  show ?thesis
    using assms unfolding c
    by (auto simp: score_guess_def Let_def awards_def pointsAwardedFlag_def)
qed

lemma score_guess_award:
  assumes "score_guess s u m dk now g st p = (payload, s')" and "awards s now u m dk g p"
  shows "gr_pointsAwarded payload = stagePoints st"
    and "totalScore s' t u m = totalScore s now u m + stagePoints st"
    and "streak s' t u m =
           (if (case lastPlayedDay s now u m of None \<Rightarrow> [] | Some d \<Rightarrow> d)
                 = utcDateKey (now - 24 * 60 * 60 * 1000)
            then streak s now u m + 1 else 1)"
    and "lastPlayedDay s' t u m = Some dk"
    and "pointsAwardedFlag s' t u m dk = (t < now + flag_lifetime)"
    and "readCompleted s' t u m dk = (t < now + flag_lifetime)"
proof -
  have c: "gr_correct payload"
    using score_guess_response(1) [OF assms(1)] assms(2) by (simp add: awards_def)
  have s': "s' = setCompleted (award_win s u m dk now (stagePoints st)) now u m dk"
    using score_guess_eq [OF assms(1)] assms(2) c by (simp add: awards_def)
  show "gr_pointsAwarded payload = stagePoints st"
    using assms
    by (auto simp: score_guess_def Let_def awards_def pointsAwardedFlag_def)
  show "totalScore s' t u m = totalScore s now u m + stagePoints st"
    unfolding s' totalScore_def setCompleted_eq
    by (simp add: reads_cong(1) [where s = "award_win s u m dk now (stagePoints st)"]
        user_keys_distinct' award_win_reads)
  show "streak s' t u m =
           (if (case lastPlayedDay s now u m of None \<Rightarrow> [] | Some d \<Rightarrow> d)
                 = utcDateKey (now - 24 * 60 * 60 * 1000)
            then streak s now u m + 1 else 1)"
    unfolding s' streak_def lastPlayedDay_def setCompleted_eq
    by (simp add: reads_cong(1) [where s = "award_win s u m dk now (stagePoints st)"]
        user_keys_distinct' award_win_reads)
  show "lastPlayedDay s' t u m = Some dk"
    unfolding s' lastPlayedDay_def setCompleted_eq
    by (simp add: reads_cong(2) [where s = "award_win s u m dk now (stagePoints st)"]
        user_keys_distinct' award_win_reads)
  show "pointsAwardedFlag s' t u m dk = (t < now + flag_lifetime)"
    unfolding s' pointsAwardedFlag_def setCompleted_eq
    by (simp add: reads_cong(3) [where s = "award_win s u m dk now (stagePoints st)"]
        user_keys_distinct' award_win_reads)
  show "readCompleted s' t u m dk = (t < now + flag_lifetime)"
    unfolding s' readCompleted_def setCompleted_eq
    by (simp add: is_one_def redis_get_upd)
qed

lemma score_guess_no_award:
  assumes "score_guess s u m dk now g st p = (payload, s')" and "\<not> awards s now u m dk g p"
  shows "gr_pointsAwarded payload = 0"
    and "s' (kScore u m) = s (kScore u m)"
    and "s' (kStreak u m) = s (kStreak u m)"
    and "s' (kLastDate u m) = s (kLastDate u m)"
    and "s' (kPlayed u m dk) = s (kPlayed u m dk)"
  using assms
  by (auto simp: score_guess_def Let_def awards_def pointsAwardedFlag_def setCompleted_eq
      user_keys_distinct')

lemma score_guess_completed:
  assumes "score_guess s u m dk now g st p = (payload, s')"
  shows "readCompleted s' now u m dk =
           (readCompleted s now u m dk \<or> gr_correct payload \<or> st = 3)"
  unfolding score_guess_eq [OF assms]
  by (auto simp: setCompleted_eq readCompleted_def is_one_def redis_get_upd flag_lifetime_pos
      award_win_reads(5) redis_get_cong [where s' = "award_win s u m dk now (stagePoints st)"])

lemma score_guess_frame:
  assumes "score_guess s u m dk now g st p = (payload, s')"
    and "k \<notin> {kPlayed u m dk, kScore u m, kStreak u m, kLastDate u m, kCompleted u m dk}"
  shows "s' k = s k"
  using assms
  by (auto simp: score_guess_def Let_def setCompleted_eq award_win_frame)

section \<open>Traces\<close>

lemma trace_Cons:
  "trace step (q # qs) s =
     (s, fst (step q s), snd (step q s)) # trace step qs (snd (step q s))"
  by (simp split: prod.splits)

lemma length_trace: "length (trace step qs s) = length qs"
  by (induction qs arbitrary: s) (simp_all split: prod.splits)

lemma trace_entry:
  "e \<in> set (trace step qs s) \<Longrightarrow>
     \<exists>q \<in> set qs. fst (snd e) = fst (step q (fst e)) \<and> snd (snd e) = snd (step q (fst e))"
  by (induction qs arbitrary: s) (auto simp del: trace.simps(2) simp add: trace_Cons)

lemma trace_rest:
  "trace step qs s = xs @ e # ys \<Longrightarrow>
     \<exists>qs'. set qs' \<subseteq> set qs \<and> ys = trace step qs' (snd (snd e))"
proof (induction xs arbitrary: qs s)
  case Nil
  then show ?case by (cases qs) (auto simp del: trace.simps(2) simp add: trace_Cons)
next
  case (Cons x xs)
  then obtain q qs1 where qs: "qs = q # qs1" by (cases qs) auto
  with Cons.prems have "trace step qs1 (snd (step q s)) = xs @ e # ys"
    by (simp del: trace.simps(2) add: trace_Cons)
  from Cons.IH [OF this] qs show ?case by auto
qed

lemma trace_invariant:
  assumes "P s" and "\<And>q t. q \<in> set qs \<Longrightarrow> P t \<Longrightarrow> P (snd (step q t))"
  shows "\<forall>e \<in> set (trace step qs s). P (fst e) \<and> P (snd (snd e))"
  using assms
  by (induction qs arbitrary: s) (auto simp del: trace.simps(2) simp add: trace_Cons)

lemma trace_later:
  assumes "trace step qs s = xs @ e # ys" and "x \<in> set xs"
  shows "\<exists>qs'. set qs' \<subseteq> set qs \<and> e \<in> set (trace step qs' (snd (snd x)))"
proof -
  from assms(2) obtain xs1 xs2 where "xs = xs1 @ x # xs2"
    by (auto simp: in_set_conv_decomp)
  with assms(1) have "trace step qs s = xs1 @ x # (xs2 @ e # ys)" by simp
  from trace_rest [OF this] obtain qs' where sub: "set qs' \<subseteq> set qs"
    and eq: "xs2 @ e # ys = trace step qs' (snd (snd x))" by blast
  from eq have "e \<in> set (trace step qs' (snd (snd x)))"
    by (metis in_set_conv_decomp)
  with sub show ?thesis by blast
qed

text \<open>
  A flag that, once set, stays set and freezes the score; a score that changes only on a
  correct guess while the flag is not set; a correct guess that sets the flag; all this
  on the stores of an invariant that every step keeps. Then the request that changes the
  score is the first correct one, and nothing changes after a correct one.
\<close>

lemma award_once_generic:
  assumes inv0: "I s0"
    and inv: "\<And>q t. q \<in> set qs \<Longrightarrow> I t \<Longrightarrow> I (snd (step q t))"
    and absorbing: "\<And>q t. q \<in> set qs \<Longrightarrow> I t \<Longrightarrow> finished t \<Longrightarrow>
      finished (snd (step q t)) \<and> score (snd (step q t)) = score t"
    and change: "\<And>q t. q \<in> set qs \<Longrightarrow> I t \<Longrightarrow> score (snd (step q t)) \<noteq> score t \<Longrightarrow>
      correct (fst (step q t)) \<and> \<not> finished t \<and> score t < score (snd (step q t))"
    and sets: "\<And>q t. q \<in> set qs \<Longrightarrow> I t \<Longrightarrow> correct (fst (step q t)) \<Longrightarrow>
      finished (snd (step q t))"
    and split: "trace step qs s0 = xs @ e # ys"
  shows "score (snd (snd e)) \<noteq> score (fst e) \<longrightarrow>
           score (fst e) < score (snd (snd e)) \<and> correct (fst (snd e))
           \<and> (\<forall>x \<in> set xs. \<not> correct (fst (snd x)))"
    and "correct (fst (snd e)) \<longrightarrow> (\<forall>y \<in> set ys. score (snd (snd y)) = score (fst y))"
    and "score (snd (snd e)) \<noteq> score (fst e) \<longrightarrow>
           (\<forall>x \<in> set xs. score (snd (snd x)) = score (fst x))"
proof -
  have Iall: "\<forall>x \<in> set (trace step qs s0). I (fst x) \<and> I (snd (snd x))"
    using inv0 inv by (rule trace_invariant)
  have e_in: "e \<in> set (trace step qs s0)" using split by simp
  with Iall have Ie: "I (fst e)" "I (snd (snd e))" by auto
  from trace_entry [OF e_in] obtain q where q: "q \<in> set qs"
    and e1: "fst (snd e) = fst (step q (fst e))" and e2: "snd (snd e) = snd (step q (fst e))"
    by blast
  have frozen: "\<forall>y \<in> set (trace step qs' t). score (snd (snd y)) = score (fst y) \<and> finished (fst y)"
    if "I t" "finished t" and "set qs' \<subseteq> set qs" for qs' t
  proof
    fix y assume y: "y \<in> set (trace step qs' t)"
    have "\<forall>e \<in> set (trace step qs' t).
        (I (fst e) \<and> finished (fst e)) \<and> (I (snd (snd e)) \<and> finished (snd (snd e)))"
      using that absorbing inv by (intro trace_invariant) auto
    with y have d: "finished (fst y)" "I (fst y)" by auto
    from trace_entry [OF y] obtain q' where "q' \<in> set qs'"
      and "snd (snd y) = snd (step q' (fst y))" by blast
    with absorbing [of q' "fst y"] d that(3)
    show "score (snd (snd y)) = score (fst y) \<and> finished (fst y)"
      by auto
  qed
  show "score (snd (snd e)) \<noteq> score (fst e) \<longrightarrow>
           score (fst e) < score (snd (snd e)) \<and> correct (fst (snd e))
           \<and> (\<forall>x \<in> set xs. \<not> correct (fst (snd x)))"
  proof (intro impI conjI ballI)
    assume ch: "score (snd (snd e)) \<noteq> score (fst e)"
    from change [OF q Ie(1)] ch e1 e2
    show "score (fst e) < score (snd (snd e))" and "correct (fst (snd e))" by auto
    from change [OF q Ie(1)] ch e2 have nd: "\<not> finished (fst e)" by auto
    fix x assume x: "x \<in> set xs"
    show "\<not> correct (fst (snd x))"
    proof
      assume cx: "correct (fst (snd x))"
      have xin: "x \<in> set (trace step qs s0)" using split x by simp
      with Iall have Ix: "I (fst x)" "I (snd (snd x))" by auto
      from trace_entry [OF xin] obtain qx where "qx \<in> set qs"
        and "fst (snd x) = fst (step qx (fst x))" and "snd (snd x) = snd (step qx (fst x))"
        by blast
      with sets [of qx "fst x"] cx Ix have dx: "finished (snd (snd x))" by auto
      from trace_later [OF split x] obtain qs' where "set qs' \<subseteq> set qs"
        and "e \<in> set (trace step qs' (snd (snd x)))" by blast
      with frozen [OF Ix(2) dx] have "finished (fst e)" by blast
      with nd show False by contradiction
    qed
  qed
  then have first: "score (snd (snd e)) \<noteq> score (fst e) \<longrightarrow>
      (\<forall>x \<in> set xs. \<not> correct (fst (snd x)))" by blast
  show "correct (fst (snd e)) \<longrightarrow> (\<forall>y \<in> set ys. score (snd (snd y)) = score (fst y))"
  proof (intro impI)
    assume "correct (fst (snd e))"
    with sets [OF q Ie(1)] e1 e2 have de: "finished (snd (snd e))" by auto
    from trace_rest [OF split] obtain qs' where "set qs' \<subseteq> set qs"
      and "ys = trace step qs' (snd (snd e))" by blast
    with frozen [OF Ie(2) de] show "\<forall>y \<in> set ys. score (snd (snd y)) = score (fst y)" by blast
  qed
  show "score (snd (snd e)) \<noteq> score (fst e) \<longrightarrow>
      (\<forall>x \<in> set xs. score (snd (snd x)) = score (fst x))"
  proof (intro impI ballI)
    fix x assume ch: "score (snd (snd e)) \<noteq> score (fst e)" and x: "x \<in> set xs"
    with first have nc: "\<not> correct (fst (snd x))" by blast
    have xin: "x \<in> set (trace step qs s0)" using split x by simp
    with Iall have Ix: "I (fst x)" by auto
    from trace_entry [OF xin] obtain qx where qx: "qx \<in> set qs"
      and x1: "fst (snd x) = fst (step qx (fst x))" and x2: "snd (snd x) = snd (step qx (fst x))"
      by blast
    show "score (snd (snd x)) = score (fst x)"
    proof (rule ccontr)
      assume "score (snd (snd x)) \<noteq> score (fst x)"
      with change [OF qx Ix] x1 x2 nc show False by auto
    qed
  qed
qed

section \<open>One request, first listing\<close>

lemma prepare_frame:
  assumes "build_with select dk m r now (ensure_committed s now u m dk) = (bres, s2)"
  shows "s2 (kScore u m) = s (kScore u m)"
    and "s2 (kStreak u m) = s (kStreak u m)"
    and "s2 (kLastDate u m) = s (kLastDate u m)"
    and "s2 (kPlayed u m dk) = s (kPlayed u m dk)"
    and "s2 (kCompleted u m dk) = s (kCompleted u m dk)"
    and "readCommitted s2 now u m dk"
proof -
  have frame: "s2 k = ensure_committed s now u m dk k" if "k \<noteq> cacheKey dk m" for k
    using assms that by (rule build_with_frame)
  show "s2 (kScore u m) = s (kScore u m)" "s2 (kStreak u m) = s (kStreak u m)"
    "s2 (kLastDate u m) = s (kLastDate u m)" "s2 (kPlayed u m dk) = s (kPlayed u m dk)"
    "s2 (kCompleted u m dk) = s (kCompleted u m dk)"
    by (simp_all add: frame cacheKey_not_user' ensure_committed_frame user_keys_distinct')
  have "s2 (kCommit u m dk) = ensure_committed s now u m dk (kCommit u m dk)"
    by (simp add: frame cacheKey_not_user')
  with ensure_committed_sets [of s now u m dk] show "readCommitted s2 now u m dk"
    by (simp add: readCommitted_def is_one_def redis_get_def)
qed

lemma prepare_reads:
  assumes "build_with select dk m r now (ensure_committed s now u m dk) = (bres, s2)"
  shows "totalScore s2 t u m = totalScore s t u m"
    and "streak s2 t u m = streak s t u m"
    and "lastPlayedDay s2 t u m = lastPlayedDay s t u m"
    and "pointsAwardedFlag s2 t u m dk = pointsAwardedFlag s t u m dk"
    and "readCompleted s2 t u m dk = readCompleted s t u m dk"
  using prepare_frame(1-5) [OF assms]
  by (simp_all add: totalScore_def streak_def lastPlayedDay_def pointsAwardedFlag_def
      readCompleted_def readNumber_def readString_def is_one_def redis_get_def)

lemma post_guess_cases:
  assumes "post_guess r now body s = (res, s')"
    and "request_key (Guess r now body) = (u, m, dk)"
  obtains (error) e where "res = Inl e"
      and "buildDailyPuzzle dk m r now (ensure_committed s now u m dk) = (Inl e, s')"
    | (scored) p s2 payload where "res = Inr payload"
      and "buildDailyPuzzle dk m r now (ensure_committed s now u m dk) = (Inr p, s2)"
      and "score_guess s2 u m dk now (case gb_subredditGuess body of None \<Rightarrow> [] | Some g \<Rightarrow> g)
             (case gb_stageUsed body of None \<Rightarrow> 3 | Some n \<Rightarrow> n) p = (payload, s')"
proof -
  obtain bres s2 where b: "buildDailyPuzzle dk m r now (ensure_committed s now u m dk) = (bres, s2)"
    by (cases "buildDailyPuzzle dk m r now (ensure_committed s now u m dk)")
  show thesis
  proof (cases bres)
    case (Inl e)
    with assms b have "res = Inl e" "s' = s2"
      by (auto simp: post_guess_def Let_def)
    with b Inl error show ?thesis by simp
  next
    case (Inr p)
    obtain payload s3 where sg: "score_guess s2 u m dk now
        (case gb_subredditGuess body of None \<Rightarrow> [] | Some g \<Rightarrow> g)
        (case gb_stageUsed body of None \<Rightarrow> 3 | Some n \<Rightarrow> n) p = (payload, s3)"
      by (cases "score_guess s2 u m dk now
        (case gb_subredditGuess body of None \<Rightarrow> [] | Some g \<Rightarrow> g)
        (case gb_stageUsed body of None \<Rightarrow> 3 | Some n \<Rightarrow> n) p")
    with assms b Inr have "res = Inr payload" "s' = s3"
      by (auto simp: post_guess_def Let_def)
    with b Inr sg scored show ?thesis by simp
  qed
qed

lemma stagePoints_pos: "0 < stagePoints st"
  by (simp add: stagePoints_def)

text \<open>The three facts about one guess that the single-award property rests on.\<close>

lemma post_guess_absorbing:
  assumes "post_guess r now body s = (res, s')"
    and "request_key (Guess r now body) = (u, m, dk)"
    and "readCompleted s now u m dk"
  shows "s' (kCompleted u m dk) = s (kCompleted u m dk)"
    and "s' (kScore u m) = s (kScore u m)"
    and "s' (kStreak u m) = s (kStreak u m)" and "s' (kLastDate u m) = s (kLastDate u m)"
    and "s' (kPlayed u m dk) = s (kPlayed u m dk)"
proof -
  have "s' (kCompleted u m dk) = s (kCompleted u m dk) \<and> s' (kScore u m) = s (kScore u m)
      \<and> s' (kStreak u m) = s (kStreak u m) \<and> s' (kLastDate u m) = s (kLastDate u m)
      \<and> s' (kPlayed u m dk) = s (kPlayed u m dk)"
    using assms(1,2)
  proof (cases rule: post_guess_cases)
    case (error e)
    from prepare_frame [OF error(2) [unfolded buildDailyPuzzle_def]]
    show ?thesis by simp
  next
    case (scored p s2 payload)
    note f = prepare_frame [OF scored(2) [unfolded buildDailyPuzzle_def]]
    from prepare_reads(5) [OF scored(2) [unfolded buildDailyPuzzle_def]] assms(3)
    have c2: "readCompleted s2 now u m dk" by simp
    then have "s' = s2"
      using score_guess_eq [OF scored(3)] by (simp add: awards_def)
    with f show ?thesis by simp
  qed
  then show "s' (kCompleted u m dk) = s (kCompleted u m dk)"
    and "s' (kScore u m) = s (kScore u m)"
    and "s' (kStreak u m) = s (kStreak u m)" and "s' (kLastDate u m) = s (kLastDate u m)"
    and "s' (kPlayed u m dk) = s (kPlayed u m dk)"
    by simp_all
qed

lemma post_guess_change:
  assumes "post_guess r now body s = (res, s')"
    and "request_key (Guess r now body) = (u, m, dk)"
    and "totalScore s' now u m \<noteq> totalScore s now u m"
  shows "\<exists>payload. res = Inr payload \<and> gr_correct payload"
    and "\<not> readCompleted s now u m dk"
    and "totalScore s now u m < totalScore s' now u m"
proof -
  have "(\<exists>payload. res = Inr payload \<and> gr_correct payload) \<and> \<not> readCompleted s now u m dk
      \<and> totalScore s now u m < totalScore s' now u m"
    using assms(1,2)
  proof (cases rule: post_guess_cases)
    case (error e)
    from prepare_reads(1) [OF error(2) [unfolded buildDailyPuzzle_def]] assms(3)
    show ?thesis by simp
  next
    case (scored p s2 payload)
    note f = prepare_reads [OF scored(2) [unfolded buildDailyPuzzle_def]]
    let ?g = "case gb_subredditGuess body of None \<Rightarrow> [] | Some g \<Rightarrow> g"
    have aw: "awards s2 now u m dk ?g p"
    proof (rule ccontr)
      assume "\<not> awards s2 now u m dk ?g p"
      from score_guess_no_award(2) [OF scored(3) this] f(1) [of now] assms(3)
      show False by (simp add: totalScore_def readNumber_def redis_get_def)
    qed
    from score_guess_award(2) [OF scored(3) aw] f(1)
    have "totalScore s' now u m = totalScore s now u m + stagePoints
        (case gb_stageUsed body of None \<Rightarrow> 3 | Some n \<Rightarrow> n)"
      by simp
    moreover from aw score_guess_response(1) [OF scored(3)] have "gr_correct payload"
      by (simp add: awards_def)
    moreover from aw f(5) have "\<not> readCompleted s now u m dk"
      by (simp add: awards_def)
    ultimately show ?thesis using scored(1) stagePoints_pos by simp
  qed
  then show "\<exists>payload. res = Inr payload \<and> gr_correct payload"
    and "\<not> readCompleted s now u m dk" and "totalScore s now u m < totalScore s' now u m"
    by simp_all
qed

lemma post_guess_correct_completes:
  assumes "post_guess r now body s = (Inr payload, s')"
    and "request_key (Guess r now body) = (u, m, dk)"
    and "gr_correct payload"
  shows "readCompleted s' now u m dk"
  using assms(1,2)
proof (cases rule: post_guess_cases)
  case (error e)
  then show ?thesis by simp
next
  case (scored p s2 payload')
  with score_guess_completed [OF scored(3)] assms(3) show ?thesis by simp
qed

section \<open>Giving up\<close>

lemma post_giveup_cases:
  assumes "post_giveup r now body s = (res, s')"
    and "request_key (GiveUp r now body) = (u, m, dk)"
  obtains bres where
    "buildDailyPuzzle dk m r now
       (if \<not> readCompleted (ensure_committed s now u m dk) now u m dk
        then setCompleted (ensure_committed s now u m dk) now u m dk
        else ensure_committed s now u m dk) = (bres, s')"
    and "res = map_sum id (\<lambda>puzzle. \<lparr>gu_modeLocked = m, gu_modeIsLocked = True,
           gu_completedToday = True, gu_answer = pz_subreddit puzzle\<rparr>) bres"
proof -
  let ?s2 = "if \<not> readCompleted (ensure_committed s now u m dk) now u m dk
        then setCompleted (ensure_committed s now u m dk) now u m dk
        else ensure_committed s now u m dk"
  obtain bres s3 where b: "buildDailyPuzzle dk m r now ?s2 = (bres, s3)"
    by (cases "buildDailyPuzzle dk m r now ?s2")
  have "post_giveup r now body s =
      (case buildDailyPuzzle dk m r now ?s2 of
         (Inl e, s3) \<Rightarrow> (Inl e, s3)
       | (Inr puzzle, s3) \<Rightarrow>
           (Inr \<lparr>gu_modeLocked = m, gu_modeIsLocked = True, gu_completedToday = True,
                 gu_answer = pz_subreddit puzzle\<rparr>, s3))"
    using assms(2) by (simp add: post_giveup_def Let_def)
  with assms(1) b have "s' = s3"
    and "res = map_sum id (\<lambda>puzzle. \<lparr>gu_modeLocked = m, gu_modeIsLocked = True,
           gu_completedToday = True, gu_answer = pz_subreddit puzzle\<rparr>) bres"
    by (auto split: sum.splits)
  with b that show thesis by simp
qed

lemma post_giveup_effect:
  assumes "post_giveup r now body s = (res, s')"
    and "request_key (GiveUp r now body) = (u, m, dk)"
  shows "readCompleted s' now u m dk" and "s' (kScore u m) = s (kScore u m)"
    and "s' (kStreak u m) = s (kStreak u m)" and "s' (kLastDate u m) = s (kLastDate u m)"
    and "s' (kPlayed u m dk) = s (kPlayed u m dk)"
    and "readCompleted s now u m dk \<Longrightarrow> s' (kCompleted u m dk) = s (kCompleted u m dk)"
proof -
  define s1 where "s1 = ensure_committed s now u m dk"
  define s2 where "s2 = (if \<not> readCompleted s1 now u m dk then setCompleted s1 now u m dk else s1)"
  from assms obtain bres where b: "buildDailyPuzzle dk m r now s2 = (bres, s')"
    unfolding s2_def s1_def by (rule post_giveup_cases)
  have frame: "s' k = s2 k" if "k \<noteq> cacheKey dk m" for k
    using b [unfolded buildDailyPuzzle_def] that by (rule build_with_frame)
  have c: "readCompleted s2 now u m dk"
    by (simp add: s2_def setCompleted_eq readCompleted_def is_one_def redis_get_upd
        flag_lifetime_pos)
  have others: "s2 k = s k" if "k \<noteq> kCompleted u m dk" "k \<noteq> kCommit u m dk" for k
    using that by (simp add: s2_def s1_def setCompleted_eq ensure_committed_frame)
  have s1c: "s1 (kCompleted u m dk) = s (kCompleted u m dk)"
    by (simp add: s1_def ensure_committed_frame user_keys_distinct')
  show "readCompleted s' now u m dk"
    using c frame [of "kCompleted u m dk"]
    by (simp add: cacheKey_not_user' readCompleted_def is_one_def redis_get_def)
  show "s' (kScore u m) = s (kScore u m)" "s' (kStreak u m) = s (kStreak u m)"
    "s' (kLastDate u m) = s (kLastDate u m)" "s' (kPlayed u m dk) = s (kPlayed u m dk)"
    by (simp_all add: frame cacheKey_not_user' others user_keys_distinct')
  show "s' (kCompleted u m dk) = s (kCompleted u m dk)" if "readCompleted s now u m dk"
  proof -
    from that s1c have "readCompleted s1 now u m dk"
      by (simp add: readCompleted_def is_one_def redis_get_def)
    then have "s2 = s1" by (simp add: s2_def)
    with s1c show ?thesis by (simp add: frame cacheKey_not_user')
  qed
qed

section \<open>One guess, second listing\<close>

lemma score_guess2_response:
  assumes "score_guess2 s u m dk now g st p = (payload, s')"
  shows "gr_correct payload = (toLowerCase (normalizeGuess g) = toLowerCase (pz_subreddit p))"
    and "gr_answer payload = pz_subreddit p"
    and "gr_streak payload = streak s' now u m"
  using assms by (auto simp: score_guess2_def Let_def streak_def)

lemma score_guess2_eq:
  assumes "score_guess2 s u m dk now g st p = (payload, s')"
  shows "s' = (if toLowerCase (normalizeGuess g) = toLowerCase (pz_subreddit p)
                  \<and> \<not> pointsAwardedFlag s now u m dk
               then award_win s u m dk now (stagePoints st) else s)"
  using assms by (auto simp: score_guess2_def Let_def pointsAwardedFlag_def)

lemma score_guess2_award:
  assumes "score_guess2 s u m dk now g st p = (payload, s')"
    and "toLowerCase (normalizeGuess g) = toLowerCase (pz_subreddit p)"
    and "\<not> pointsAwardedFlag s now u m dk"
  shows "gr_pointsAwarded payload = stagePoints st"
    and "totalScore s' t u m = totalScore s now u m + stagePoints st"
    and "streak s' t u m =
           (if (case lastPlayedDay s now u m of None \<Rightarrow> [] | Some d \<Rightarrow> d)
                 = utcDateKey (now - 24 * 60 * 60 * 1000)
            then streak s now u m + 1 else 1)"
    and "lastPlayedDay s' t u m = Some dk"
    and "pointsAwardedFlag s' t u m dk = (t < now + flag_lifetime)"
  using assms
  by (auto simp: score_guess2_def Let_def pointsAwardedFlag_def totalScore_def
      streak_def lastPlayedDay_def award_win_reads)

lemma score_guess2_no_award:
  assumes "score_guess2 s u m dk now g st p = (payload, s')"
    and "\<not> (toLowerCase (normalizeGuess g) = toLowerCase (pz_subreddit p)
            \<and> \<not> pointsAwardedFlag s now u m dk)"
  shows "gr_pointsAwarded payload = 0" and "s' = s"
  using assms
  by (auto simp: score_guess2_def Let_def pointsAwardedFlag_def)

lemma post_guess2_cases:
  assumes "post_guess2 r now body s = (res, s')"
    and "request_key2 (r, now, body) = (u, m, dk)"
  obtains (error) e where "res = Inl e"
      and "buildDailyPuzzle2 dk m r now (ensure_committed s now u m dk) = (Inl e, s')"
    | (scored) p s2 payload where "res = Inr payload"
      and "buildDailyPuzzle2 dk m r now (ensure_committed s now u m dk) = (Inr p, s2)"
      and "score_guess2 s2 u m dk now (case gb_subredditGuess body of None \<Rightarrow> [] | Some g \<Rightarrow> g)
             (case gb_stageUsed body of None \<Rightarrow> 3 | Some n \<Rightarrow> n) p = (payload, s')"
proof -
  obtain bres s2 where b: "buildDailyPuzzle2 dk m r now (ensure_committed s now u m dk) = (bres, s2)"
    by (cases "buildDailyPuzzle2 dk m r now (ensure_committed s now u m dk)")
  show thesis
  proof (cases bres)
    case (Inl e)
    with assms b have "res = Inl e" "s' = s2"
      by (auto simp: post_guess2_def Let_def)
    with b Inl error show ?thesis by simp
  next
    case (Inr p)
    obtain payload s3 where sg: "score_guess2 s2 u m dk now
        (case gb_subredditGuess body of None \<Rightarrow> [] | Some g \<Rightarrow> g)
        (case gb_stageUsed body of None \<Rightarrow> 3 | Some n \<Rightarrow> n) p = (payload, s3)"
      by (cases "score_guess2 s2 u m dk now
        (case gb_subredditGuess body of None \<Rightarrow> [] | Some g \<Rightarrow> g)
        (case gb_stageUsed body of None \<Rightarrow> 3 | Some n \<Rightarrow> n) p")
    with assms b Inr have "res = Inr payload" "s' = s3"
      by (auto simp: post_guess2_def Let_def)
    with b Inr sg scored show ?thesis by simp
  qed
qed

lemma post_guess2_absorbing:
  assumes "post_guess2 r now body s = (res, s')"
    and "request_key2 (r, now, body) = (u, m, dk)"
    and "pointsAwardedFlag s now u m dk"
  shows "s' (kPlayed u m dk) = s (kPlayed u m dk) \<and> s' (kScore u m) = s (kScore u m)"
  using assms(1,2)
proof (cases rule: post_guess2_cases)
  case (error e)
  from prepare_frame [OF error(2) [unfolded buildDailyPuzzle2_def]]
  show ?thesis by simp
next
  case (scored p s2 payload)
  note f = prepare_frame [OF scored(2) [unfolded buildDailyPuzzle2_def]]
  from prepare_reads(4) [OF scored(2) [unfolded buildDailyPuzzle2_def]] assms(3)
  have "pointsAwardedFlag s2 now u m dk" by simp
  with score_guess2_no_award(2) [OF scored(3)] have "s' = s2" by simp
  with f show ?thesis by simp
qed

lemma post_guess2_change:
  assumes "post_guess2 r now body s = (res, s')"
    and "request_key2 (r, now, body) = (u, m, dk)"
    and "totalScore s' now u m \<noteq> totalScore s now u m"
  shows "(\<exists>payload. res = Inr payload \<and> gr_correct payload) \<and> \<not> pointsAwardedFlag s now u m dk
      \<and> totalScore s now u m < totalScore s' now u m"
  using assms(1,2)
proof (cases rule: post_guess2_cases)
  case (error e)
  from prepare_reads(1) [OF error(2) [unfolded buildDailyPuzzle2_def]] assms(3)
  show ?thesis by simp
next
  case (scored p s2 payload)
  note f = prepare_reads [OF scored(2) [unfolded buildDailyPuzzle2_def]]
  let ?g = "case gb_subredditGuess body of None \<Rightarrow> [] | Some g \<Rightarrow> g"
  have aw: "toLowerCase (normalizeGuess ?g) = toLowerCase (pz_subreddit p)
      \<and> \<not> pointsAwardedFlag s2 now u m dk"
  proof (rule ccontr)
    assume "\<not> ?thesis"
    from score_guess2_no_award(2) [OF scored(3) this] f(1) assms(3)
    show False by simp
  qed
  from score_guess2_award(2) [OF scored(3)] aw f(1)
  have "totalScore s' now u m = totalScore s now u m + stagePoints
      (case gb_stageUsed body of None \<Rightarrow> 3 | Some n \<Rightarrow> n)"
    by simp
  moreover from aw score_guess2_response(1) [OF scored(3)] have "gr_correct payload"
    by simp
  moreover from aw f(4) have "\<not> pointsAwardedFlag s now u m dk"
    by simp
  ultimately show ?thesis using scored(1) stagePoints_pos by simp
qed

lemma post_guess2_correct_awarded:
  assumes "post_guess2 r now body s = (Inr payload, s')"
    and "request_key2 (r, now, body) = (u, m, dk)"
    and "gr_correct payload"
  shows "pointsAwardedFlag s' now u m dk"
  using assms(1,2)
proof (cases rule: post_guess2_cases)
  case (error e)
  then show ?thesis by simp
next
  case (scored p s2 payload')
  then have c: "toLowerCase (normalizeGuess
      (case gb_subredditGuess body of None \<Rightarrow> [] | Some g \<Rightarrow> g)) = toLowerCase (pz_subreddit p)"
    using score_guess2_response(1) [OF scored(3)] assms(3) by simp
  show ?thesis
  proof (cases "pointsAwardedFlag s2 now u m dk")
    case True
    with score_guess2_no_award(2) [OF scored(3)] show ?thesis by simp
  next
    case False
    from score_guess2_award(5) [OF scored(3) c False, of now] show ?thesis
      by (simp add: flag_lifetime_pos)
  qed
qed

section \<open>Steps of the two listings\<close>

lemma handle_absorbing:
  assumes "request_key q = (u, m, dk)" and "readCompleted t (request_time q) u m dk"
  shows "snd (handle q t) (kCompleted u m dk) = t (kCompleted u m dk)"
    and "snd (handle q t) (kScore u m) = t (kScore u m)"
    and "snd (handle q t) (kStreak u m) = t (kStreak u m)"
    and "snd (handle q t) (kLastDate u m) = t (kLastDate u m)"
    and "snd (handle q t) (kPlayed u m dk) = t (kPlayed u m dk)"
proof -
  have "snd (handle q t) (kCompleted u m dk) = t (kCompleted u m dk)
      \<and> snd (handle q t) (kScore u m) = t (kScore u m)
      \<and> snd (handle q t) (kStreak u m) = t (kStreak u m)
      \<and> snd (handle q t) (kLastDate u m) = t (kLastDate u m)
      \<and> snd (handle q t) (kPlayed u m dk) = t (kPlayed u m dk)"
  proof (cases q)
    case (Guess r now body)
    obtain res s' where pg: "post_guess r now body t = (res, s')"
      by (cases "post_guess r now body t")
    from assms(2) Guess have c: "readCompleted t now u m dk" by simp
    from post_guess_absorbing [OF pg assms(1) [unfolded Guess] c] pg Guess
    show ?thesis by simp
  next
    case (GiveUp r now body)
    obtain res s' where pg: "post_giveup r now body t = (res, s')"
      by (cases "post_giveup r now body t")
    from assms(2) GiveUp have c: "readCompleted t now u m dk" by simp
    from post_giveup_effect(2-5) [OF pg assms(1) [unfolded GiveUp]]
      post_giveup_effect(6) [OF pg assms(1) [unfolded GiveUp] c] pg GiveUp
    show ?thesis by simp
  qed
  then show "snd (handle q t) (kCompleted u m dk) = t (kCompleted u m dk)"
    and "snd (handle q t) (kScore u m) = t (kScore u m)"
    and "snd (handle q t) (kStreak u m) = t (kStreak u m)"
    and "snd (handle q t) (kLastDate u m) = t (kLastDate u m)"
    and "snd (handle q t) (kPlayed u m dk) = t (kPlayed u m dk)"
    by simp_all
qed

lemma handle_change:
  assumes "request_key q = (u, m, dk)"
    and "totalScore (snd (handle q t)) (request_time q) u m \<noteq> totalScore t (request_time q) u m"
  shows "is_correct (fst (handle q t)) \<and> \<not> readCompleted t (request_time q) u m dk
      \<and> totalScore t (request_time q) u m < totalScore (snd (handle q t)) (request_time q) u m"
proof (cases q)
  case (Guess r now body)
  obtain res s' where pg: "post_guess r now body t = (res, s')"
    by (cases "post_guess r now body t")
  with assms(2) Guess have "totalScore s' now u m \<noteq> totalScore t now u m" by simp
  from post_guess_change [OF pg assms(1) [unfolded Guess] this] pg Guess
  show ?thesis by auto
next
  case (GiveUp r now body)
  obtain res s' where pg: "post_giveup r now body t = (res, s')"
    by (cases "post_giveup r now body t")
  from post_giveup_effect(2) [OF pg assms(1) [unfolded GiveUp]] pg GiveUp assms(2)
  show ?thesis by (simp add: totalScore_def readNumber_def redis_get_def)
qed

lemma handle_correct_completes:
  assumes "request_key q = (u, m, dk)" and "is_correct (fst (handle q t))"
  shows "readCompleted (snd (handle q t)) (request_time q) u m dk"
proof (cases q)
  case (Guess r now body)
  obtain res s' where pg: "post_guess r now body t = (res, s')"
    by (cases "post_guess r now body t")
  with assms(2) Guess obtain payload where "res = Inr payload" "gr_correct payload"
    by (cases res) auto
  with post_guess_correct_completes [OF _ assms(1) [unfolded Guess]] pg Guess
  show ?thesis by simp
next
  case (GiveUp r now body)
  with assms(2) show ?thesis
    by (cases "post_giveup r now body t"; cases "fst (post_giveup r now body t)") auto
qed

lemma handle2_facts:
  assumes "request_key2 q = (u, m, dk)"
  shows "pointsAwardedFlag t (request_time2 q) u m dk \<Longrightarrow>
           snd (handle2 q t) (kPlayed u m dk) = t (kPlayed u m dk)
           \<and> snd (handle2 q t) (kScore u m) = t (kScore u m)"
    and "totalScore (snd (handle2 q t)) (request_time2 q) u m \<noteq> totalScore t (request_time2 q) u m
         \<Longrightarrow> is_correct (fst (handle2 q t)) \<and> \<not> pointsAwardedFlag t (request_time2 q) u m dk
           \<and> totalScore t (request_time2 q) u m
               < totalScore (snd (handle2 q t)) (request_time2 q) u m"
    and "is_correct (fst (handle2 q t)) \<Longrightarrow>
           pointsAwardedFlag (snd (handle2 q t)) (request_time2 q) u m dk"
proof -
  obtain r now body where q: "q = (r, now, body)" by (cases q)
  obtain res s' where pg: "post_guess2 r now body t = (res, s')"
    by (cases "post_guess2 r now body t")
  note key = assms [unfolded q]
  show "snd (handle2 q t) (kPlayed u m dk) = t (kPlayed u m dk)
      \<and> snd (handle2 q t) (kScore u m) = t (kScore u m)"
    if "pointsAwardedFlag t (request_time2 q) u m dk"
  proof -
    from that q have "pointsAwardedFlag t now u m dk" by simp
    from post_guess2_absorbing [OF pg key this] pg q show ?thesis by simp
  qed
  show "is_correct (fst (handle2 q t)) \<and> \<not> pointsAwardedFlag t (request_time2 q) u m dk
      \<and> totalScore t (request_time2 q) u m < totalScore (snd (handle2 q t)) (request_time2 q) u m"
    if "totalScore (snd (handle2 q t)) (request_time2 q) u m \<noteq> totalScore t (request_time2 q) u m"
  proof -
    from that pg q have "totalScore s' now u m \<noteq> totalScore t now u m" by simp
    from post_guess2_change [OF pg key this] pg q show ?thesis by auto
  qed
  show "pointsAwardedFlag (snd (handle2 q t)) (request_time2 q) u m dk"
    if "is_correct (fst (handle2 q t))"
  proof -
    from that pg q obtain payload where "res = Inr payload" "gr_correct payload"
      by (cases res) auto
    with post_guess2_correct_awarded [OF _ key] pg q show ?thesis by simp
  qed
qed

section \<open>Keys that do not expire within a span\<close>

lemma rewritten_refl: "rewritten s s now k"
  by (simp add: rewritten_def)

lemma rewritten_trans:
  "rewritten s s1 now k \<Longrightarrow> rewritten s1 s2 now k \<Longrightarrow> rewritten s s2 now k"
  by (auto simp: rewritten_def split: option.splits)

lemma rewritten_upd:
  "rewritten s (s(k' \<mapsto> (v, None))) now k"
  "rewritten s (s(k' \<mapsto> (v, Some (now + flag_lifetime)))) now k"
  "rewritten s s1 now k \<Longrightarrow> rewritten s (s1(k' \<mapsto> (v, None))) now k"
  "rewritten s s1 now k \<Longrightarrow> rewritten s (s1(k' \<mapsto> (v, Some (now + flag_lifetime)))) now k"
  by (auto simp: rewritten_def)

lemma ensure_committed_rewritten: "rewritten s (ensure_committed s now u m dk) now k"
  by (simp add: ensure_committed_def commitMode_eq rewritten_upd rewritten_refl)

lemma build_with_rewritten:
  assumes "build_with select dk m r now s = (res, s')"
  shows "rewritten s s' now k"
  using build_with_cases [OF assms] by (auto simp: rewritten_upd rewritten_refl)

lemma score_guess_rewritten:
  assumes "score_guess s u m dk now g st p = (payload, s')"
  shows "rewritten s s' now k"
  unfolding score_guess_eq [OF assms]
  by (simp add: setCompleted_eq award_win_eq rewritten_upd rewritten_refl)

lemma score_guess2_rewritten:
  assumes "score_guess2 s u m dk now g st p = (payload, s')"
  shows "rewritten s s' now k"
  unfolding score_guess2_eq [OF assms]
  by (simp add: award_win_eq rewritten_upd rewritten_refl)

lemma post_guess_rewritten:
  assumes "post_guess r now body s = (res, s')"
  shows "rewritten s s' now k"
proof -
  obtain u m dk where key: "request_key (Guess r now body) = (u, m, dk)"
    by (cases "request_key (Guess r now body)")
  from assms key show ?thesis
  proof (cases rule: post_guess_cases)
    case (error e)
    from rewritten_trans [OF ensure_committed_rewritten
        build_with_rewritten [OF error(2) [unfolded buildDailyPuzzle_def]]]
    show ?thesis .
  next
    case (scored p s2 payload)
    from rewritten_trans [OF rewritten_trans [OF ensure_committed_rewritten
        build_with_rewritten [OF scored(2) [unfolded buildDailyPuzzle_def]]]
        score_guess_rewritten [OF scored(3)]]
    show ?thesis .
  qed
qed

lemma post_guess2_rewritten:
  assumes "post_guess2 r now body s = (res, s')"
  shows "rewritten s s' now k"
proof -
  obtain u m dk where key: "request_key2 (r, now, body) = (u, m, dk)"
    by (cases "request_key2 (r, now, body)")
  from assms key show ?thesis
  proof (cases rule: post_guess2_cases)
    case (error e)
    from rewritten_trans [OF ensure_committed_rewritten
        build_with_rewritten [OF error(2) [unfolded buildDailyPuzzle2_def]]]
    show ?thesis .
  next
    case (scored p s2 payload)
    from rewritten_trans [OF rewritten_trans [OF ensure_committed_rewritten
        build_with_rewritten [OF scored(2) [unfolded buildDailyPuzzle2_def]]]
        score_guess2_rewritten [OF scored(3)]]
    show ?thesis .
  qed
qed

lemma post_giveup_rewritten:
  assumes "post_giveup r now body s = (res, s')"
  shows "rewritten s s' now k"
proof -
  obtain u m dk where key: "request_key (GiveUp r now body) = (u, m, dk)"
    by (cases "request_key (GiveUp r now body)")
  from assms key obtain bres where b: "buildDailyPuzzle dk m r now
       (if \<not> readCompleted (ensure_committed s now u m dk) now u m dk
        then setCompleted (ensure_committed s now u m dk) now u m dk
        else ensure_committed s now u m dk) = (bres, s')"
    by (rule post_giveup_cases)
  have "rewritten s (if \<not> readCompleted (ensure_committed s now u m dk) now u m dk
        then setCompleted (ensure_committed s now u m dk) now u m dk
        else ensure_committed s now u m dk) now k"
    by (simp add: setCompleted_eq rewritten_upd ensure_committed_rewritten)
  from rewritten_trans [OF this build_with_rewritten [OF b [unfolded buildDailyPuzzle_def]]]
  show ?thesis .
qed

lemma handle_rewritten: "rewritten t (snd (handle q t)) (request_time q) k"
proof (cases q)
  case (Guess r now body)
  then show ?thesis
    using post_guess_rewritten [of r now body t "fst (post_guess r now body t)"
        "snd (post_guess r now body t)" k]
    by simp
next
  case (GiveUp r now body)
  then show ?thesis
    using post_giveup_rewritten [of r now body t "fst (post_giveup r now body t)"
        "snd (post_giveup r now body t)" k]
    by simp
qed

lemma handle2_rewritten: "rewritten t (snd (handle2 q t)) (request_time2 q) k"
proof -
  obtain r now body where q: "q = (r, now, body)" by (cases q)
  then show ?thesis
    using post_guess2_rewritten [of r now body t "fst (post_guess2 r now body t)"
        "snd (post_guess2 r now body t)" k]
    by simp
qed

lemma steady_get:
  assumes "steady s lo hi k" and "lo \<le> a" "a \<le> hi" "lo \<le> b" "b \<le> hi"
  shows "redis_get s a k = redis_get s b k"
  using assms by (auto simp: steady_def redis_get_def split: option.splits)

lemma steady_step:
  assumes "rewritten s s' now k" and "lo \<le> now" "now \<le> hi" "hi - lo < flag_lifetime"
    and "steady s lo hi k"
  shows "steady s' lo hi k"
  using assms by (auto simp: steady_def rewritten_def split: option.splits)

lemma settled_step:
  assumes "\<And>k. rewritten s s' now k" and "lo \<le> now" "now \<le> hi" "hi - lo < flag_lifetime"
    and "settled s lo hi u m dk"
  shows "settled s' lo hi u m dk"
  using assms(5) steady_step [OF assms(1-4)]
  by (simp add: settled_def day_keys_def)

lemma settled_reads:
  assumes "settled s lo hi u m dk" and "lo \<le> a" "a \<le> hi" "lo \<le> b" "b \<le> hi"
  shows "totalScore s a u m = totalScore s b u m"
    and "streak s a u m = streak s b u m"
    and "lastPlayedDay s a u m = lastPlayedDay s b u m"
    and "readCompleted s a u m dk = readCompleted s b u m dk"
    and "pointsAwardedFlag s a u m dk = pointsAwardedFlag s b u m dk"
    and "cache_lookup s a dk m = cache_lookup s b dk m"
proof -
  have g: "redis_get s a k = redis_get s b k" if "k \<in> set (day_keys u m dk)" for k
    using assms that by (intro steady_get) (auto simp: settled_def list_all_iff)
  show "totalScore s a u m = totalScore s b u m"
    and "streak s a u m = streak s b u m"
    and "lastPlayedDay s a u m = lastPlayedDay s b u m"
    and "readCompleted s a u m dk = readCompleted s b u m dk"
    and "pointsAwardedFlag s a u m dk = pointsAwardedFlag s b u m dk"
    and "cache_lookup s a dk m = cache_lookup s b dk m"
    by (simp_all add: totalScore_def streak_def lastPlayedDay_def readCompleted_def
        pointsAwardedFlag_def cache_lookup_def readNumber_def readString_def is_one_def
        g day_keys_def)
qed

text \<open>
  The facts about one step, read at any time \<open>tt\<close> of a span shorter than the lifetime
  of the flags, on a store that is settled over the span.
\<close>

lemma handle_window:
  assumes key: "request_key q = (u, m, dk)"
    and time: "lo \<le> request_time q" "request_time q \<le> hi"
    and span: "hi - lo < flag_lifetime"
    and inv: "settled t lo hi u m dk"
    and tt: "lo \<le> tt" "tt \<le> hi"
  shows "settled (snd (handle q t)) lo hi u m dk"
    and "readCompleted t tt u m dk \<Longrightarrow>
           readCompleted (snd (handle q t)) tt u m dk
           \<and> totalScore (snd (handle q t)) tt u m = totalScore t tt u m
           \<and> streak (snd (handle q t)) tt u m = streak t tt u m
           \<and> lastPlayedDay (snd (handle q t)) tt u m = lastPlayedDay t tt u m"
    and "totalScore (snd (handle q t)) tt u m \<noteq> totalScore t tt u m \<Longrightarrow>
           is_correct (fst (handle q t)) \<and> \<not> readCompleted t tt u m dk
           \<and> totalScore t tt u m < totalScore (snd (handle q t)) tt u m"
    and "is_correct (fst (handle q t)) \<Longrightarrow> readCompleted (snd (handle q t)) tt u m dk"
proof -
  let ?now = "request_time q"
  let ?s' = "snd (handle q t)"
  show inv': "settled ?s' lo hi u m dk"
    using handle_rewritten time span inv by (rule settled_step)
  note before = settled_reads [OF inv tt time]
  note after = settled_reads [OF inv' tt time]
  show "readCompleted ?s' tt u m dk \<and> totalScore ?s' tt u m = totalScore t tt u m
      \<and> streak ?s' tt u m = streak t tt u m
      \<and> lastPlayedDay ?s' tt u m = lastPlayedDay t tt u m"
    if "readCompleted t tt u m dk"
  proof -
    from that before(4) have c: "readCompleted t ?now u m dk" by simp
    from handle_absorbing [OF key c] that
    show ?thesis
      by (simp add: readCompleted_def totalScore_def streak_def lastPlayedDay_def
          readNumber_def readString_def is_one_def redis_get_def)
  qed
  show "is_correct (fst (handle q t)) \<and> \<not> readCompleted t tt u m dk
      \<and> totalScore t tt u m < totalScore ?s' tt u m"
    if "totalScore ?s' tt u m \<noteq> totalScore t tt u m"
    using handle_change [OF key] that before(1,4) after(1) by simp
  show "readCompleted ?s' tt u m dk" if "is_correct (fst (handle q t))"
    using handle_correct_completes [OF key that] after(4) by simp
qed

lemma handle2_window:
  assumes key: "request_key2 q = (u, m, dk)"
    and time: "lo \<le> request_time2 q" "request_time2 q \<le> hi"
    and span: "hi - lo < flag_lifetime"
    and inv: "settled t lo hi u m dk"
    and tt: "lo \<le> tt" "tt \<le> hi"
  shows "settled (snd (handle2 q t)) lo hi u m dk"
    and "pointsAwardedFlag t tt u m dk \<Longrightarrow>
           pointsAwardedFlag (snd (handle2 q t)) tt u m dk
           \<and> totalScore (snd (handle2 q t)) tt u m = totalScore t tt u m"
    and "totalScore (snd (handle2 q t)) tt u m \<noteq> totalScore t tt u m \<Longrightarrow>
           is_correct (fst (handle2 q t)) \<and> \<not> pointsAwardedFlag t tt u m dk
           \<and> totalScore t tt u m < totalScore (snd (handle2 q t)) tt u m"
    and "is_correct (fst (handle2 q t)) \<Longrightarrow> pointsAwardedFlag (snd (handle2 q t)) tt u m dk"
proof -
  let ?now = "request_time2 q"
  let ?s' = "snd (handle2 q t)"
  show inv': "settled ?s' lo hi u m dk"
    using handle2_rewritten time span inv by (rule settled_step)
  note before = settled_reads [OF inv tt time]
  note after = settled_reads [OF inv' tt time]
  show "pointsAwardedFlag ?s' tt u m dk \<and> totalScore ?s' tt u m = totalScore t tt u m"
    if "pointsAwardedFlag t tt u m dk"
  proof -
    from that before(5) have c: "pointsAwardedFlag t ?now u m dk" by simp
    from handle2_facts(1) [OF key c] that
    show ?thesis
      by (simp add: pointsAwardedFlag_def totalScore_def readNumber_def is_one_def
          redis_get_def)
  qed
  show "is_correct (fst (handle2 q t)) \<and> \<not> pointsAwardedFlag t tt u m dk
      \<and> totalScore t tt u m < totalScore ?s' tt u m"
    if "totalScore ?s' tt u m \<noteq> totalScore t tt u m"
    using handle2_facts(2) [OF key] that before(1,5) after(1) by simp
  show "pointsAwardedFlag ?s' tt u m dk" if "is_correct (fst (handle2 q t))"
    using handle2_facts(3) [OF key that] after(5) by simp
qed

section \<open>C2: a single award per user, mode and day\<close>

lemma award_once_first:
  assumes keys: "\<And>q. q \<in> set qs \<Longrightarrow>
      request_key q = (u, m, dk) \<and> lo \<le> request_time q \<and> request_time q \<le> hi"
    and span: "hi - lo < flag_lifetime"
    and settled: "settled s0 lo hi u m dk"
    and t: "lo \<le> t" "t \<le> hi"
    and split: "trace handle qs s0 = earlier @ e # later"
  shows "score_changes u m t e \<longrightarrow>
           score_increases u m t e \<and> is_correct (fst (snd e))
           \<and> (\<forall>x \<in> set earlier. \<not> is_correct (fst (snd x)))"
    and "is_correct (fst (snd e)) \<longrightarrow> (\<forall>y \<in> set later. \<not> score_changes u m t y)"
    and "score_changes u m t e \<longrightarrow> (\<forall>x \<in> set earlier. \<not> score_changes u m t x)"
proof -
  have inv: "settled (snd (handle q s)) lo hi u m dk"
    if "q \<in> set qs" "settled s lo hi u m dk" for q s
    using keys [OF that(1)] span that(2) t by (intro handle_window(1)) simp_all
  have absorbing: "readCompleted (snd (handle q s)) t u m dk
      \<and> totalScore (snd (handle q s)) t u m = totalScore s t u m"
    if "q \<in> set qs" "settled s lo hi u m dk" "readCompleted s t u m dk" for q s
    using handle_window(2) [of q u m dk lo hi s t] keys [OF that(1)] span that(2,3) t by simp
  have change: "is_correct (fst (handle q s)) \<and> \<not> readCompleted s t u m dk
      \<and> totalScore s t u m < totalScore (snd (handle q s)) t u m"
    if "q \<in> set qs" "settled s lo hi u m dk"
      "totalScore (snd (handle q s)) t u m \<noteq> totalScore s t u m" for q s
    using handle_window(3) [of q u m dk lo hi s t] keys [OF that(1)] span that(2,3) t by simp
  have sets: "readCompleted (snd (handle q s)) t u m dk"
    if "q \<in> set qs" "settled s lo hi u m dk" "is_correct (fst (handle q s))" for q s
    using handle_window(4) [of q u m dk lo hi s t] keys [OF that(1)] span that(2,3) t by simp
  note g = award_once_generic [where step = handle and qs = qs
      and I = "\<lambda>s. settled s lo hi u m dk"
      and finished = "\<lambda>s. readCompleted s t u m dk" and score = "\<lambda>s. totalScore s t u m"
      and correct = is_correct, OF settled inv absorbing change sets split]
  from g(1) show "score_changes u m t e \<longrightarrow>
         score_increases u m t e \<and> is_correct (fst (snd e))
         \<and> (\<forall>x \<in> set earlier. \<not> is_correct (fst (snd x)))"
    by (simp add: score_changes_def score_increases_def)
  from g(2) show "is_correct (fst (snd e)) \<longrightarrow> (\<forall>y \<in> set later. \<not> score_changes u m t y)"
    by (simp add: score_changes_def)
  from g(3) show "score_changes u m t e \<longrightarrow> (\<forall>x \<in> set earlier. \<not> score_changes u m t x)"
    by (simp add: score_changes_def)
qed

lemma award_once_second:
  assumes keys: "\<And>q. q \<in> set qs2 \<Longrightarrow>
      request_key2 q = (u, m, dk) \<and> lo \<le> request_time2 q \<and> request_time2 q \<le> hi"
    and span: "hi - lo < flag_lifetime"
    and settled: "settled s0 lo hi u m dk"
    and t: "lo \<le> t" "t \<le> hi"
    and split: "trace handle2 qs2 s0 = earlier2 @ e2 # later2"
  shows "score_changes u m t e2 \<longrightarrow>
           score_increases u m t e2 \<and> is_correct (fst (snd e2))
           \<and> (\<forall>x \<in> set earlier2. \<not> is_correct (fst (snd x)))"
    and "is_correct (fst (snd e2)) \<longrightarrow> (\<forall>y \<in> set later2. \<not> score_changes u m t y)"
    and "score_changes u m t e2 \<longrightarrow> (\<forall>x \<in> set earlier2. \<not> score_changes u m t x)"
proof -
  have inv: "settled (snd (handle2 q s)) lo hi u m dk"
    if "q \<in> set qs2" "settled s lo hi u m dk" for q s
    using keys [OF that(1)] span that(2) t by (intro handle2_window(1)) simp_all
  have absorbing: "pointsAwardedFlag (snd (handle2 q s)) t u m dk
      \<and> totalScore (snd (handle2 q s)) t u m = totalScore s t u m"
    if "q \<in> set qs2" "settled s lo hi u m dk" "pointsAwardedFlag s t u m dk" for q s
    using handle2_window(2) [of q u m dk lo hi s t] keys [OF that(1)] span that(2,3) t by simp
  have change: "is_correct (fst (handle2 q s)) \<and> \<not> pointsAwardedFlag s t u m dk
      \<and> totalScore s t u m < totalScore (snd (handle2 q s)) t u m"
    if "q \<in> set qs2" "settled s lo hi u m dk"
      "totalScore (snd (handle2 q s)) t u m \<noteq> totalScore s t u m" for q s
    using handle2_window(3) [of q u m dk lo hi s t] keys [OF that(1)] span that(2,3) t by simp
  have sets: "pointsAwardedFlag (snd (handle2 q s)) t u m dk"
    if "q \<in> set qs2" "settled s lo hi u m dk" "is_correct (fst (handle2 q s))" for q s
    using handle2_window(4) [of q u m dk lo hi s t] keys [OF that(1)] span that(2,3) t by simp
  note g = award_once_generic [where step = handle2 and qs = qs2
      and I = "\<lambda>s. settled s lo hi u m dk"
      and finished = "\<lambda>s. pointsAwardedFlag s t u m dk" and score = "\<lambda>s. totalScore s t u m"
      and correct = is_correct, OF settled inv absorbing change sets split]
  from g(1) show "score_changes u m t e2 \<longrightarrow>
         score_increases u m t e2 \<and> is_correct (fst (snd e2))
         \<and> (\<forall>x \<in> set earlier2. \<not> is_correct (fst (snd x)))"
    by (simp add: score_changes_def score_increases_def)
  from g(2) show "is_correct (fst (snd e2)) \<longrightarrow> (\<forall>y \<in> set later2. \<not> score_changes u m t y)"
    by (simp add: score_changes_def)
  from g(3) show "score_changes u m t e2 \<longrightarrow> (\<forall>x \<in> set earlier2. \<not> score_changes u m t x)"
    by (simp add: score_changes_def)
qed

text \<open>
  C2, as the code implements it. The played and completed flags that guard the award are
  written with an expiry of 48 hours, so the property holds over a span shorter than that.
  Take any sequence of requests of one user for one mode and one day key that all arrive
  between the times \<open>lo\<close> and \<open>hi\<close>, less than 48 hours apart, handled one after the
  other from a store in which no key of that user, mode and day is due to expire between
  \<open>lo\<close> and \<open>hi\<close>; split its trace at any entry, and read \<open>totalScore\<close> at any time
  \<open>t\<close> of the span. If that request changes \<open>totalScore\<close>, it increases it, its guess
  is correct, no earlier request of the sequence had a correct guess, and no other request
  of the sequence, earlier or later, changes \<open>totalScore\<close>; and after a request with a
  correct guess no later request changes \<open>totalScore\<close>. Hence at most one request
  increases the score, and it is the first correct one. The first conjunct is the first
  listing (guesses, and give-ups between them), the second conjunct the second listing.
\<close>

theorem single_award:
  "((\<forall>q \<in> set qs. request_key q = (u, m, dk) \<and> lo \<le> request_time q \<and> request_time q \<le> hi)
      \<and> hi - lo < flag_lifetime \<and> settled s0 lo hi u m dk \<and> lo \<le> t \<and> t \<le> hi
      \<and> trace handle qs s0 = earlier @ e # later \<longrightarrow>
      (score_changes u m t e \<longrightarrow>
         score_increases u m t e \<and> is_correct (fst (snd e))
         \<and> (\<forall>x \<in> set earlier. \<not> is_correct (fst (snd x)) \<and> \<not> score_changes u m t x)
         \<and> (\<forall>y \<in> set later. \<not> score_changes u m t y))
      \<and> (is_correct (fst (snd e)) \<longrightarrow> (\<forall>y \<in> set later. \<not> score_changes u m t y)))
   \<and> ((\<forall>q \<in> set qs2. request_key2 q = (u, m, dk) \<and> lo \<le> request_time2 q \<and> request_time2 q \<le> hi)
      \<and> hi - lo < flag_lifetime \<and> settled s0 lo hi u m dk \<and> lo \<le> t \<and> t \<le> hi
      \<and> trace handle2 qs2 s0 = earlier2 @ e2 # later2 \<longrightarrow>
      (score_changes u m t e2 \<longrightarrow>
         score_increases u m t e2 \<and> is_correct (fst (snd e2))
         \<and> (\<forall>x \<in> set earlier2. \<not> is_correct (fst (snd x)) \<and> \<not> score_changes u m t x)
         \<and> (\<forall>y \<in> set later2. \<not> score_changes u m t y))
      \<and> (is_correct (fst (snd e2)) \<longrightarrow> (\<forall>y \<in> set later2. \<not> score_changes u m t y)))"
proof (rule conjI; rule impI)
  assume a: "(\<forall>q \<in> set qs. request_key q = (u, m, dk) \<and> lo \<le> request_time q \<and> request_time q \<le> hi)
      \<and> hi - lo < flag_lifetime \<and> settled s0 lo hi u m dk \<and> lo \<le> t \<and> t \<le> hi
      \<and> trace handle qs s0 = earlier @ e # later"
  then have keys: "\<And>q. q \<in> set qs \<Longrightarrow>
      request_key q = (u, m, dk) \<and> lo \<le> request_time q \<and> request_time q \<le> hi"
    and span: "hi - lo < flag_lifetime" and settled: "settled s0 lo hi u m dk"
    and t: "lo \<le> t" "t \<le> hi"
    and split: "trace handle qs s0 = earlier @ e # later" by auto
  from award_once_first [OF keys span settled t split]
  show "(score_changes u m t e \<longrightarrow>
         score_increases u m t e \<and> is_correct (fst (snd e))
         \<and> (\<forall>x \<in> set earlier. \<not> is_correct (fst (snd x)) \<and> \<not> score_changes u m t x)
         \<and> (\<forall>y \<in> set later. \<not> score_changes u m t y))
      \<and> (is_correct (fst (snd e)) \<longrightarrow> (\<forall>y \<in> set later. \<not> score_changes u m t y))"
    by blast
next
  assume a: "(\<forall>q \<in> set qs2. request_key2 q = (u, m, dk) \<and> lo \<le> request_time2 q \<and> request_time2 q \<le> hi)
      \<and> hi - lo < flag_lifetime \<and> settled s0 lo hi u m dk \<and> lo \<le> t \<and> t \<le> hi
      \<and> trace handle2 qs2 s0 = earlier2 @ e2 # later2"
  then have keys: "\<And>q. q \<in> set qs2 \<Longrightarrow>
      request_key2 q = (u, m, dk) \<and> lo \<le> request_time2 q \<and> request_time2 q \<le> hi"
    and span: "hi - lo < flag_lifetime" and settled: "settled s0 lo hi u m dk"
    and t: "lo \<le> t" "t \<le> hi"
    and split: "trace handle2 qs2 s0 = earlier2 @ e2 # later2" by auto
  from award_once_second [OF keys span settled t split]
  show "(score_changes u m t e2 \<longrightarrow>
         score_increases u m t e2 \<and> is_correct (fst (snd e2))
         \<and> (\<forall>x \<in> set earlier2. \<not> is_correct (fst (snd x)) \<and> \<not> score_changes u m t x)
         \<and> (\<forall>y \<in> set later2. \<not> score_changes u m t y))
      \<and> (is_correct (fst (snd e2)) \<longrightarrow> (\<forall>y \<in> set later2. \<not> score_changes u m t y))"
    by blast
qed

lemma demo_keys:
  "\<forall>q \<in> set demo_guesses. request_key q = (''t2_user'', Medium, ''2024-01-10'')
      \<and> noon_jan10 \<le> request_time q \<and> request_time q \<le> noon_jan11"
  "\<forall>q \<in> set demo_guesses2. request_key2 q = (''t2_user'', Medium, ''2024-01-10'')
      \<and> noon_jan10 \<le> request_time2 q \<and> request_time2 q \<le> noon_jan11"
  by (simp_all add: demo_guesses_def demo_guesses2_def) code_simp+

lemma split3: "length xs = 3 \<Longrightarrow> xs = [xs ! 0] @ xs ! 1 # [xs ! 2]"
  by (cases xs; cases "tl xs"; cases "tl (tl xs)") auto

text \<open>
  Three guesses within a day, from a store without flags in which the puzzle was cached
  at noon: the second guess scores 60, the first and the third score nothing.
\<close>

theorem single_award_witness:
  "noon_jan11 - noon_jan10 < flag_lifetime
   \<and> settled (cached_store ''2024-01-10'' noon_jan10) noon_jan10 noon_jan11
       ''t2_user'' Medium ''2024-01-10''
   \<and> score_changes ''t2_user'' Medium noon_jan11
       (trace handle demo_guesses (cached_store ''2024-01-10'' noon_jan10) ! 1)
   \<and> totalScore (snd (snd (trace handle demo_guesses (cached_store ''2024-01-10'' noon_jan10) ! 1)))
       noon_jan11 ''t2_user'' Medium = 400
   \<and> is_correct (fst (snd (trace handle demo_guesses (cached_store ''2024-01-10'' noon_jan10) ! 1)))
   \<and> \<not> is_correct (fst (snd (trace handle demo_guesses (cached_store ''2024-01-10'' noon_jan10) ! 0)))
   \<and> \<not> score_changes ''t2_user'' Medium noon_jan11
       (trace handle demo_guesses (cached_store ''2024-01-10'' noon_jan10) ! 2)
   \<and> score_changes ''t2_user'' Medium noon_jan11
       (trace handle2 demo_guesses2 (cached_store ''2024-01-10'' noon_jan10) ! 1)
   \<and> \<not> is_correct (fst (snd (trace handle2 demo_guesses2 (cached_store ''2024-01-10'' noon_jan10) ! 0)))
   \<and> \<not> score_changes ''t2_user'' Medium noon_jan11
       (trace handle2 demo_guesses2 (cached_store ''2024-01-10'' noon_jan10) ! 2)"
proof -
  let ?s0 = "cached_store ''2024-01-10'' noon_jan10"
  let ?tr = "trace handle demo_guesses ?s0"
  let ?tr2 = "trace handle2 demo_guesses2 ?s0"
  have l1: "length ?tr = 3" and l2: "length ?tr2 = 3"
    unfolding length_trace by (simp_all add: demo_guesses_def demo_guesses2_def)
  have s1: "?tr = [?tr ! 0] @ ?tr ! 1 # [?tr ! 2]"
    using l1 by (rule split3)
  have s2: "?tr2 = [?tr2 ! 0] @ ?tr2 ! 1 # [?tr2 ! 2]"
    using l2 by (rule split3)
  have span: "noon_jan11 - noon_jan10 < flag_lifetime" "noon_jan10 \<le> noon_jan11"
    by (simp_all add: noon_jan10_def noon_jan11_def flag_lifetime_def)
  have st: "settled ?s0 noon_jan10 noon_jan11 ''t2_user'' Medium ''2024-01-10''" by code_simp
  have c1: "score_changes ''t2_user'' Medium noon_jan11 (?tr ! 1)" by code_simp
  have c2: "score_changes ''t2_user'' Medium noon_jan11 (?tr2 ! 1)" by code_simp
  have v: "totalScore (snd (snd (?tr ! 1))) noon_jan11 ''t2_user'' Medium = 400" by code_simp
  from single_award [of demo_guesses "''t2_user''" Medium "''2024-01-10''" noon_jan10 noon_jan11
      ?s0 noon_jan11 "[?tr ! 0]" "?tr ! 1" "[?tr ! 2]" demo_guesses2 "[?tr2 ! 0]" "?tr2 ! 1"
      "[?tr2 ! 2]"]
    demo_keys s1 s2 c1 c2 v span st
  show ?thesis by simp
qed

text \<open>
  The claim as stated fails on the first listing. A day key is accepted from the server's
  yesterday to its tomorrow, a span of 72 hours, while the played and completed flags
  live 48 hours. Two correct guesses of one user for the medium puzzle of 2024-01-10, at
  00:01 UTC on 9 January and at 00:02 UTC on 11 January, both resolve to that day key;
  when the second arrives the flags of the first have expired, and it scores 100 again:
  the total goes from 340 to 440 and then to 540.
\<close>

theorem second_award_after_expiry:
  "map request_key late_guesses
     = [(''t2_user'', Medium, ''2024-01-10''), (''t2_user'', Medium, ''2024-01-10'')]
   \<and> map request_time late_guesses = [jan09_0001, jan11_0002]
   \<and> jan11_0002 - jan09_0001 = flag_lifetime + 60000
   \<and> totalScore streak4_store jan09_0001 ''t2_user'' Medium = 340
   \<and> map (\<lambda>e. fst (snd e)) (trace handle late_guesses streak4_store)
     = [Inr (GuessResponse
          \<lparr>gr_correct = True, gr_stageUsed = 1, gr_pointsAwarded = 100,
           gr_answer = ''AskReddit'', gr_totalScore = 440, gr_streak = 1,
           gr_modeLocked = Medium, gr_modeIsLocked = True, gr_completedToday = Some True\<rparr>),
        Inr (GuessResponse
          \<lparr>gr_correct = True, gr_stageUsed = 1, gr_pointsAwarded = 100,
           gr_answer = ''AskReddit'', gr_totalScore = 540, gr_streak = 2,
           gr_modeLocked = Medium, gr_modeIsLocked = True, gr_completedToday = Some True\<rparr>)]
   \<and> map (score_increases ''t2_user'' Medium jan11_0002) (trace handle late_guesses streak4_store)
     = [True, True]"
  by code_simp

section \<open>C3: the streak\<close>

lemma show_nat_nonempty: "show_nat n \<noteq> []"
  by (subst show_nat.simps) simp

lemma utcDateKey_nonempty: "utcDateKey ms \<noteq> []"
  by (simp add: utcDateKey_def show_int_def show_nat_nonempty split: prod.splits)

lemma last_is_yesterday:
  "((case lastPlayedDay s now u m of None \<Rightarrow> [] | Some d \<Rightarrow> d) = utcDateKey ms)
     = (lastPlayedDay s now u m = Some (utcDateKey ms))"
  using utcDateKey_nonempty [of ms] by (cases "lastPlayedDay s now u m") auto

lemma post_guess_streak:
  assumes "post_guess r now body s = (Inr payload, s')"
    and "request_key (Guess r now body) = (u, m, dk)"
    and "gr_pointsAwarded payload \<noteq> 0"
  shows "streak s' t u m =
           (if lastPlayedDay s now u m = Some (utcDateKey (now - 24 * 60 * 60 * 1000))
            then streak s now u m + 1 else 1)"
    and "gr_streak payload = streak s' t u m" and "lastPlayedDay s' t u m = Some dk"
proof -
  have "streak s' t u m =
           (if lastPlayedDay s now u m = Some (utcDateKey (now - 24 * 60 * 60 * 1000))
            then streak s now u m + 1 else 1)
      \<and> gr_streak payload = streak s' t u m \<and> lastPlayedDay s' t u m = Some dk"
    using assms(1,2)
  proof (cases rule: post_guess_cases)
    case (error e)
    then show ?thesis by simp
  next
    case (scored p s2 payload')
    note f = prepare_reads [OF scored(2) [unfolded buildDailyPuzzle_def]]
    let ?g = "case gb_subredditGuess body of None \<Rightarrow> [] | Some g \<Rightarrow> g"
    have aw: "awards s2 now u m dk ?g p"
    proof (rule ccontr)
      assume "\<not> awards s2 now u m dk ?g p"
      from score_guess_no_award(1) [OF scored(3) this] scored(1) assms(3)
      show False by simp
    qed
    from f(2,3) have "streak s2 now u m = streak s now u m"
      and "lastPlayedDay s2 now u m = lastPlayedDay s now u m"
      by simp_all
    with score_guess_award(3,4) [OF scored(3) aw, of t] score_guess_award(3) [OF scored(3) aw, of now]
      score_guess_response(6) [OF scored(3)] scored(1)
    show ?thesis by (simp add: last_is_yesterday)
  qed
  then show "streak s' t u m =
           (if lastPlayedDay s now u m = Some (utcDateKey (now - 24 * 60 * 60 * 1000))
            then streak s now u m + 1 else 1)"
    and "gr_streak payload = streak s' t u m" and "lastPlayedDay s' t u m = Some dk"
    by simp_all
qed

lemma post_guess2_streak:
  assumes "post_guess2 r now body s = (Inr payload, s')"
    and "request_key2 (r, now, body) = (u, m, dk)"
    and "gr_pointsAwarded payload \<noteq> 0"
  shows "streak s' t u m =
           (if lastPlayedDay s now u m = Some (utcDateKey (now - 24 * 60 * 60 * 1000))
            then streak s now u m + 1 else 1)"
    and "gr_streak payload = streak s' t u m" and "lastPlayedDay s' t u m = Some dk"
proof -
  have "streak s' t u m =
           (if lastPlayedDay s now u m = Some (utcDateKey (now - 24 * 60 * 60 * 1000))
            then streak s now u m + 1 else 1)
      \<and> gr_streak payload = streak s' t u m \<and> lastPlayedDay s' t u m = Some dk"
    using assms(1,2)
  proof (cases rule: post_guess2_cases)
    case (error e)
    then show ?thesis by simp
  next
    case (scored p s2 payload')
    note f = prepare_reads [OF scored(2) [unfolded buildDailyPuzzle2_def]]
    let ?g = "case gb_subredditGuess body of None \<Rightarrow> [] | Some g \<Rightarrow> g"
    have aw: "toLowerCase (normalizeGuess ?g) = toLowerCase (pz_subreddit p)
        \<and> \<not> pointsAwardedFlag s2 now u m dk"
    proof (rule ccontr)
      assume "\<not> ?thesis"
      from score_guess2_no_award(1) [OF scored(3) this] scored(1) assms(3)
      show False by simp
    qed
    from f(2,3) have "streak s2 now u m = streak s now u m"
      and "lastPlayedDay s2 now u m = lastPlayedDay s now u m"
      by simp_all
    with score_guess2_award(3,4) [OF scored(3), of t] score_guess2_award(3) [OF scored(3), of now]
      aw score_guess2_response(3) [OF scored(3)] scored(1)
    show ?thesis by (simp add: last_is_yesterday)
  qed
  then show "streak s' t u m =
           (if lastPlayedDay s now u m = Some (utcDateKey (now - 24 * 60 * 60 * 1000))
            then streak s now u m + 1 else 1)"
    and "gr_streak payload = streak s' t u m" and "lastPlayedDay s' t u m = Some dk"
    by simp_all
qed

text \<open>
  C3, as the code implements it. When a guess is scored as a win (points are awarded), the
  stored streak becomes the previous streak plus 1 if the stored \<open>lastPlayedDay\<close> equals
  the server's UTC yesterday, the UTC date 24 hours before the request, and 1 otherwise;
  the response reports that streak, and \<open>lastPlayedDay\<close> becomes the day key \<open>D\<close> of
  the win. Both are written without an expiry: they read the same at every later time
  \<open>t\<close>. In the second listing \<open>D\<close> is the server's UTC day, so that yesterday is the
  day before \<open>D\<close>; in the first listing \<open>D\<close> may be the client's day, one day off.
\<close>

theorem streak_law:
  "(post_guess r now body s = (Inr payload, s')
      \<and> request_key (Guess r now body) = (u, m, dk) \<and> gr_pointsAwarded payload \<noteq> 0 \<longrightarrow>
      streak s' t u m =
        (if lastPlayedDay s now u m = Some (utcDateKey (now - 24 * 60 * 60 * 1000))
         then streak s now u m + 1 else 1)
      \<and> gr_streak payload = streak s' t u m \<and> lastPlayedDay s' t u m = Some dk)
   \<and> (post_guess2 r now body s = (Inr payload, s')
      \<and> request_key2 (r, now, body) = (u, m, dk) \<and> gr_pointsAwarded payload \<noteq> 0 \<longrightarrow>
      streak s' t u m =
        (if lastPlayedDay s now u m = Some (utcDateKey (now - 24 * 60 * 60 * 1000))
         then streak s now u m + 1 else 1)
      \<and> gr_streak payload = streak s' t u m \<and> lastPlayedDay s' t u m = Some dk
      \<and> dk = utcDateKey now)"
proof (rule conjI; rule impI)
  assume "post_guess r now body s = (Inr payload, s')
      \<and> request_key (Guess r now body) = (u, m, dk) \<and> gr_pointsAwarded payload \<noteq> 0"
  then have a: "post_guess r now body s = (Inr payload, s')"
    "request_key (Guess r now body) = (u, m, dk)" "gr_pointsAwarded payload \<noteq> 0"
    by simp_all
  from post_guess_streak [OF a]
  show "streak s' t u m =
        (if lastPlayedDay s now u m = Some (utcDateKey (now - 24 * 60 * 60 * 1000))
         then streak s now u m + 1 else 1)
      \<and> gr_streak payload = streak s' t u m \<and> lastPlayedDay s' t u m = Some dk"
    by simp
next
  assume "post_guess2 r now body s = (Inr payload, s')
      \<and> request_key2 (r, now, body) = (u, m, dk) \<and> gr_pointsAwarded payload \<noteq> 0"
  then have a: "post_guess2 r now body s = (Inr payload, s')"
    "request_key2 (r, now, body) = (u, m, dk)" "gr_pointsAwarded payload \<noteq> 0"
    by simp_all
  from post_guess2_streak [OF a] a(2)
  show "streak s' t u m =
        (if lastPlayedDay s now u m = Some (utcDateKey (now - 24 * 60 * 60 * 1000))
         then streak s now u m + 1 else 1)
      \<and> gr_streak payload = streak s' t u m \<and> lastPlayedDay s' t u m = Some dk
      \<and> dk = utcDateKey now"
    by simp
qed

text \<open>
  The two scenarios of the claim, with the server clock on the day of the win: from streak
  4 and \<open>lastPlayedDay\<close> 2024-01-09, a win on 2024-01-10 gives 5 and a win on 2024-01-12
  gives 1.
\<close>

theorem streak_law_witness:
  "streak (cached_store ''2024-01-10'' noon_jan10) noon_jan10 ''t2_user'' Medium = 4
   \<and> lastPlayedDay (cached_store ''2024-01-10'' noon_jan10) noon_jan10 ''t2_user'' Medium
       = Some ''2024-01-09''
   \<and> utcDateKey (noon_jan10 - 24 * 60 * 60 * 1000) = ''2024-01-09''
   \<and> utcDateKey (noon_jan12 - 24 * 60 * 60 * 1000) = ''2024-01-11''
   \<and> streak (snd (post_guess (ask_reddit (Some ask_comments)) noon_jan10
        (guess_body ''r/AskReddit'' 1 ''2024-01-10'') (cached_store ''2024-01-10'' noon_jan10)))
        noon_jan10 ''t2_user'' Medium = 5
   \<and> streak (snd (post_guess (ask_reddit (Some ask_comments)) noon_jan12
        (guess_body ''r/AskReddit'' 1 ''2024-01-12'') (cached_store ''2024-01-12'' noon_jan12)))
        noon_jan12 ''t2_user'' Medium = 1
   \<and> streak (snd (post_guess2 (ask_reddit (Some ask_comments)) noon_jan10
        (guess_body ''r/AskReddit'' 1 ''2024-01-10'') (cached_store ''2024-01-10'' noon_jan10)))
        noon_jan10 ''t2_user'' Medium = 5"
proof -
  let ?r = "ask_reddit (Some ask_comments)"
  let ?b10 = "guess_body ''r/AskReddit'' 1 ''2024-01-10''"
  let ?b12 = "guess_body ''r/AskReddit'' 1 ''2024-01-12''"
  let ?c10 = "cached_store ''2024-01-10'' noon_jan10"
  let ?c12 = "cached_store ''2024-01-12'' noon_jan12"
  obtain p10 s10 where e10: "post_guess ?r noon_jan10 ?b10 ?c10 = (p10, s10)"
    by (cases "post_guess ?r noon_jan10 ?b10 ?c10")
  obtain p12 s12 where e12: "post_guess ?r noon_jan12 ?b12 ?c12 = (p12, s12)"
    by (cases "post_guess ?r noon_jan12 ?b12 ?c12")
  obtain q10 t10 where f10: "post_guess2 ?r noon_jan10 ?b10 ?c10 = (q10, t10)"
    by (cases "post_guess2 ?r noon_jan10 ?b10 ?c10")
  have w10: "fst (post_guess ?r noon_jan10 ?b10 ?c10)
      = Inr \<lparr>gr_correct = True, gr_stageUsed = 1, gr_pointsAwarded = 100,
             gr_answer = ''AskReddit'', gr_totalScore = 440, gr_streak = 5,
             gr_modeLocked = Medium, gr_modeIsLocked = True, gr_completedToday = Some True\<rparr>"
    by code_simp
  have w12: "fst (post_guess ?r noon_jan12 ?b12 ?c12)
      = Inr \<lparr>gr_correct = True, gr_stageUsed = 1, gr_pointsAwarded = 100,
             gr_answer = ''AskReddit'', gr_totalScore = 440, gr_streak = 1,
             gr_modeLocked = Medium, gr_modeIsLocked = True, gr_completedToday = Some True\<rparr>"
    by code_simp
  have v10: "fst (post_guess2 ?r noon_jan10 ?b10 ?c10)
      = Inr \<lparr>gr_correct = True, gr_stageUsed = 1, gr_pointsAwarded = 100,
             gr_answer = ''AskReddit'', gr_totalScore = 440, gr_streak = 5,
             gr_modeLocked = Medium, gr_modeIsLocked = True, gr_completedToday = None\<rparr>"
    by code_simp
  have k10: "request_key (Guess ?r noon_jan10 ?b10) = (''t2_user'', Medium, ''2024-01-10'')"
    by code_simp
  have k12: "request_key (Guess ?r noon_jan12 ?b12) = (''t2_user'', Medium, ''2024-01-12'')"
    by code_simp
  have l10: "request_key2 (?r, noon_jan10, ?b10) = (''t2_user'', Medium, ''2024-01-10'')"
    by code_simp
  have st: "streak ?c10 noon_jan10 ''t2_user'' Medium = 4"
    "streak ?c12 noon_jan12 ''t2_user'' Medium = 4"
    "lastPlayedDay ?c10 noon_jan10 ''t2_user'' Medium = Some ''2024-01-09''"
    "lastPlayedDay ?c12 noon_jan12 ''t2_user'' Medium = Some ''2024-01-09''"
    "utcDateKey (noon_jan10 - 24 * 60 * 60 * 1000) = ''2024-01-09''"
    "utcDateKey (noon_jan12 - 24 * 60 * 60 * 1000) = ''2024-01-11''"
    by code_simp+
  from w10 e10 obtain pl10 where a10: "p10 = Inr pl10" "gr_pointsAwarded pl10 \<noteq> 0" by auto
  from w12 e12 obtain pl12 where a12: "p12 = Inr pl12" "gr_pointsAwarded pl12 \<noteq> 0" by auto
  from v10 f10 obtain ql10 where b10: "q10 = Inr ql10" "gr_pointsAwarded ql10 \<noteq> 0" by auto
  from streak_law [of ?r noon_jan10 ?b10 ?c10 pl10 s10
      "''t2_user''" Medium "''2024-01-10''" noon_jan10] e10 a10 k10 st
  have r1: "streak s10 noon_jan10 ''t2_user'' Medium = 5" by simp
  from streak_law [of ?r noon_jan12 ?b12 ?c12 pl12 s12
      "''t2_user''" Medium "''2024-01-12''" noon_jan12] e12 a12 k12 st
  have r2: "streak s12 noon_jan12 ''t2_user'' Medium = 1" by simp
  from streak_law [of ?r noon_jan10 ?b10 ?c10 ql10 t10
      "''t2_user''" Medium "''2024-01-10''" noon_jan10] f10 b10 l10 st
  have r3: "streak t10 noon_jan10 ''t2_user'' Medium = 5" by simp
  from r1 r2 r3 e10 e12 f10 st show ?thesis by simp
qed

text \<open>
  The claim as stated fails on the first listing: the win is recorded for 2024-01-10, the
  day after the stored \<open>lastPlayedDay\<close> 2024-01-09, but the request arrives when the
  server's UTC day is 2024-01-11 (the client's day key is accepted one day off), and the
  streak is reset to 1 instead of becoming 5.
\<close>

theorem streak_follows_server_clock:
  "resolveDateKey noon_jan11 (Some ''2024-01-10'') = ''2024-01-10''
   \<and> streak (cached_store ''2024-01-10'' noon_jan10) noon_jan11 ''t2_user'' Medium = 4
   \<and> lastPlayedDay (cached_store ''2024-01-10'' noon_jan10) noon_jan11 ''t2_user'' Medium
       = Some ''2024-01-09''
   \<and> fst (post_guess (ask_reddit (Some ask_comments)) noon_jan11
        (guess_body ''r/AskReddit'' 1 ''2024-01-10'') (cached_store ''2024-01-10'' noon_jan10))
      = Inr \<lparr>gr_correct = True, gr_stageUsed = 1, gr_pointsAwarded = 100,
             gr_answer = ''AskReddit'', gr_totalScore = 440, gr_streak = 1,
             gr_modeLocked = Medium, gr_modeIsLocked = True, gr_completedToday = Some True\<rparr>
   \<and> streak (snd (post_guess (ask_reddit (Some ask_comments)) noon_jan11
        (guess_body ''r/AskReddit'' 1 ''2024-01-10'') (cached_store ''2024-01-10'' noon_jan10)))
        noon_jan11 ''t2_user'' Medium = 1
   \<and> lastPlayedDay (snd (post_guess (ask_reddit (Some ask_comments)) noon_jan11
        (guess_body ''r/AskReddit'' 1 ''2024-01-10'') (cached_store ''2024-01-10'' noon_jan10)))
        noon_jan11 ''t2_user'' Medium = Some ''2024-01-10''"
  by code_simp

section \<open>C7: correctness of a guess and the stage points\<close>

lemma post_guess_scoring:
  assumes "post_guess r now body s = (Inr payload, s')"
    and "request_key (Guess r now body) = (u, m, dk)"
  shows "gr_correct payload =
           (toLowerCase (normalizeGuess (case gb_subredditGuess body of None \<Rightarrow> [] | Some g \<Rightarrow> g))
              = toLowerCase (gr_answer payload))"
    and "gr_correct payload \<and> \<not> readCompleted s now u m dk \<and> \<not> pointsAwardedFlag s now u m dk \<Longrightarrow>
           gr_pointsAwarded payload = stagePoints (case gb_stageUsed body of None \<Rightarrow> 3 | Some n \<Rightarrow> n)
           \<and> totalScore s' now u m = totalScore s now u m
                + stagePoints (case gb_stageUsed body of None \<Rightarrow> 3 | Some n \<Rightarrow> n)"
    and "\<not> (gr_correct payload \<and> \<not> readCompleted s now u m dk \<and> \<not> pointsAwardedFlag s now u m dk) \<Longrightarrow>
           gr_pointsAwarded payload = 0 \<and> totalScore s' now u m = totalScore s now u m"
proof -
  let ?g = "case gb_subredditGuess body of None \<Rightarrow> [] | Some g \<Rightarrow> g"
  let ?st = "case gb_stageUsed body of None \<Rightarrow> 3 | Some n \<Rightarrow> n"
  from assms obtain p s2 where b: "buildDailyPuzzle dk m r now (ensure_committed s now u m dk) = (Inr p, s2)"
    and sg: "score_guess s2 u m dk now ?g ?st p = (payload, s')"
    by (cases rule: post_guess_cases) auto
  note f = prepare_frame [OF b [unfolded buildDailyPuzzle_def]]
  note resp = score_guess_response [OF sg]
  note same = prepare_reads(1,5,4) [OF b [unfolded buildDailyPuzzle_def], of now]
  show c: "gr_correct payload = (toLowerCase (normalizeGuess ?g) = toLowerCase (gr_answer payload))"
    using resp(1,2) by simp
  have aw: "awards s2 now u m dk ?g p =
      (gr_correct payload \<and> \<not> readCompleted s now u m dk \<and> \<not> pointsAwardedFlag s now u m dk)"
    using resp(1) same by (auto simp: awards_def)
  show "gr_pointsAwarded payload = stagePoints ?st
      \<and> totalScore s' now u m = totalScore s now u m + stagePoints ?st"
    if "gr_correct payload \<and> \<not> readCompleted s now u m dk \<and> \<not> pointsAwardedFlag s now u m dk"
    using score_guess_award(1,2) [OF sg] aw that same by simp
  show "gr_pointsAwarded payload = 0 \<and> totalScore s' now u m = totalScore s now u m"
    if "\<not> (gr_correct payload \<and> \<not> readCompleted s now u m dk \<and> \<not> pointsAwardedFlag s now u m dk)"
  proof -
    from that aw have na: "\<not> awards s2 now u m dk ?g p" by simp
    from score_guess_no_award(1,2) [OF sg na] f(1) show ?thesis
      by (simp add: totalScore_def readNumber_def redis_get_def)
  qed
qed

text \<open>
  C7, as the code implements it. The normalised text of a guess is the input with
  surrounding white space trimmed, an optional leading \<open>/r/\<close> or \<open>r/\<close> (in either
  letter case) stripped, and all characters outside the alphanumeric-and-underscore set
  removed; the guess is correct exactly when that text equals the answer up to letter
  case. A correct guess awards the stage points, 100 at stage 1, 60 at stage 2 and 30
  otherwise, when the mode is not yet completed for the day and no win has been scored
  for it; every other guess awards nothing and leaves \<open>totalScore\<close> unchanged.
\<close>

theorem guess_scoring:
  "(post_guess r now body s = (Inr payload, s')
      \<and> request_key (Guess r now body) = (u, m, dk) \<longrightarrow>
      gr_correct payload =
        (toLowerCase (normalizeGuess (case gb_subredditGuess body of None \<Rightarrow> [] | Some g \<Rightarrow> g))
           = toLowerCase (gr_answer payload))
      \<and> (if gr_correct payload \<and> \<not> readCompleted s now u m dk \<and> \<not> pointsAwardedFlag s now u m dk
         then gr_pointsAwarded payload
                = stagePoints (case gb_stageUsed body of None \<Rightarrow> 3 | Some n \<Rightarrow> n)
              \<and> totalScore s' now u m = totalScore s now u m
                + stagePoints (case gb_stageUsed body of None \<Rightarrow> 3 | Some n \<Rightarrow> n)
         else gr_pointsAwarded payload = 0 \<and> totalScore s' now u m = totalScore s now u m))
   \<and> normalizeGuess input = filter isWordChar (strip_r_prefix (trim input))
   \<and> stagePoints 1 = 100 \<and> stagePoints 2 = 60 \<and> stagePoints 3 = 30
   \<and> normalizeGuess ''r/AskReddit'' = ''AskReddit''
   \<and> toLowerCase (normalizeGuess ''r/AskReddit'') = toLowerCase ''AskReddit''"
proof (intro conjI)
  show "post_guess r now body s = (Inr payload, s')
      \<and> request_key (Guess r now body) = (u, m, dk) \<longrightarrow>
      gr_correct payload =
        (toLowerCase (normalizeGuess (case gb_subredditGuess body of None \<Rightarrow> [] | Some g \<Rightarrow> g))
           = toLowerCase (gr_answer payload))
      \<and> (if gr_correct payload \<and> \<not> readCompleted s now u m dk \<and> \<not> pointsAwardedFlag s now u m dk
         then gr_pointsAwarded payload
                = stagePoints (case gb_stageUsed body of None \<Rightarrow> 3 | Some n \<Rightarrow> n)
              \<and> totalScore s' now u m = totalScore s now u m
                + stagePoints (case gb_stageUsed body of None \<Rightarrow> 3 | Some n \<Rightarrow> n)
         else gr_pointsAwarded payload = 0 \<and> totalScore s' now u m = totalScore s now u m)"
  proof
    assume "post_guess r now body s = (Inr payload, s')
      \<and> request_key (Guess r now body) = (u, m, dk)"
    then have a: "post_guess r now body s = (Inr payload, s')"
      "request_key (Guess r now body) = (u, m, dk)" by simp_all
    from post_guess_scoring [OF a] show "gr_correct payload =
        (toLowerCase (normalizeGuess (case gb_subredditGuess body of None \<Rightarrow> [] | Some g \<Rightarrow> g))
           = toLowerCase (gr_answer payload))
      \<and> (if gr_correct payload \<and> \<not> readCompleted s now u m dk \<and> \<not> pointsAwardedFlag s now u m dk
         then gr_pointsAwarded payload
                = stagePoints (case gb_stageUsed body of None \<Rightarrow> 3 | Some n \<Rightarrow> n)
              \<and> totalScore s' now u m = totalScore s now u m
                + stagePoints (case gb_stageUsed body of None \<Rightarrow> 3 | Some n \<Rightarrow> n)
         else gr_pointsAwarded payload = 0 \<and> totalScore s' now u m = totalScore s now u m)"
      by (cases "gr_correct payload \<and> \<not> readCompleted s now u m dk \<and> \<not> pointsAwardedFlag s now u m dk")
        simp_all
  qed
  show "normalizeGuess input = filter isWordChar (strip_r_prefix (trim input))"
    by (simp add: normalizeGuess_def)
  show "stagePoints 1 = 100" "stagePoints 2 = 60" "stagePoints 3 = 30"
    by (simp_all add: stagePoints_def)
  show "normalizeGuess ''r/AskReddit'' = ''AskReddit''" by code_simp
  then show "toLowerCase (normalizeGuess ''r/AskReddit'') = toLowerCase ''AskReddit''"
    by simp
qed

theorem guess_scoring_witness:
  "request_key (Guess (ask_reddit (Some ask_comments)) noon_jan10
       (guess_body ''r/AskReddit'' 2 ''2024-01-10'')) = (''t2_user'', Medium, ''2024-01-10'')
   \<and> fst (post_guess (ask_reddit (Some ask_comments)) noon_jan10
        (guess_body ''r/AskReddit'' 2 ''2024-01-10'') (cached_store ''2024-01-10'' noon_jan10))
      = Inr \<lparr>gr_correct = True, gr_stageUsed = 2, gr_pointsAwarded = 60,
             gr_answer = ''AskReddit'', gr_totalScore = 400, gr_streak = 5,
             gr_modeLocked = Medium, gr_modeIsLocked = True, gr_completedToday = Some True\<rparr>
   \<and> \<not> readCompleted (cached_store ''2024-01-10'' noon_jan10) noon_jan10
         ''t2_user'' Medium ''2024-01-10''
   \<and> \<not> pointsAwardedFlag (cached_store ''2024-01-10'' noon_jan10) noon_jan10
         ''t2_user'' Medium ''2024-01-10''
   \<and> totalScore (cached_store ''2024-01-10'' noon_jan10) noon_jan10 ''t2_user'' Medium = 340
   \<and> totalScore (snd (post_guess (ask_reddit (Some ask_comments)) noon_jan10
        (guess_body ''r/AskReddit'' 2 ''2024-01-10'') (cached_store ''2024-01-10'' noon_jan10)))
        noon_jan10 ''t2_user'' Medium = 400"
proof -
  let ?r = "ask_reddit (Some ask_comments)"
  let ?b = "guess_body ''r/AskReddit'' 2 ''2024-01-10''"
  let ?c = "cached_store ''2024-01-10'' noon_jan10"
  let ?payload = "\<lparr>gr_correct = True, gr_stageUsed = 2, gr_pointsAwarded = 60,
             gr_answer = ''AskReddit'', gr_totalScore = 400, gr_streak = 5,
             gr_modeLocked = Medium, gr_modeIsLocked = True, gr_completedToday = Some True\<rparr>"
  obtain res s' where e: "post_guess ?r noon_jan10 ?b ?c = (res, s')"
    by (cases "post_guess ?r noon_jan10 ?b ?c")
  have k: "request_key (Guess ?r noon_jan10 ?b) = (''t2_user'', Medium, ''2024-01-10'')"
    by code_simp
  have w: "fst (post_guess ?r noon_jan10 ?b ?c) = Inr ?payload"
    by code_simp
  have pre: "\<not> readCompleted ?c noon_jan10 ''t2_user'' Medium ''2024-01-10''"
    "\<not> pointsAwardedFlag ?c noon_jan10 ''t2_user'' Medium ''2024-01-10''"
    "totalScore ?c noon_jan10 ''t2_user'' Medium = 340"
    "gb_stageUsed ?b = Some 2"
    by code_simp+
  from w e have res: "res = Inr ?payload" by simp
  from guess_scoring [of ?r noon_jan10 ?b ?c ?payload s'
      "''t2_user''" Medium "''2024-01-10''"] e res k pre
  have "totalScore s' noon_jan10 ''t2_user'' Medium = 400"
    by (simp add: stagePoints_def)
  with k w pre e show ?thesis by simp
qed

text \<open>
  The claim as stated fails. A first correct guess awards nothing once the mode is
  completed: after a give-up, the correct guess at stage 1 is reported correct with 0
  points and the score stays at 340. And the guess is trimmed and the prefix is matched in
  either letter case before the comparison: the inputs \<open>" r/AskReddit"\<close> and
  \<open>"R/AskReddit"\<close> normalise to \<open>AskReddit\<close>, not to what stripping a leading
  \<open>r/\<close> and removing the other characters gives.
\<close>

theorem correct_guess_without_points:
  "fst (post_guess (ask_reddit (Some ask_comments)) noon_jan10
        (guess_body ''AskReddit'' 1 ''2024-01-10'')
        (snd (post_giveup (ask_reddit (Some ask_comments)) noon_jan10
           (mode_body ''2024-01-10'') (cached_store ''2024-01-10'' noon_jan10))))
      = Inr \<lparr>gr_correct = True, gr_stageUsed = 1, gr_pointsAwarded = 0,
             gr_answer = ''AskReddit'', gr_totalScore = 340, gr_streak = 4,
             gr_modeLocked = Medium, gr_modeIsLocked = True, gr_completedToday = Some True\<rparr>
   \<and> \<not> pointsAwardedFlag (snd (post_giveup (ask_reddit (Some ask_comments)) noon_jan10
           (mode_body ''2024-01-10'') (cached_store ''2024-01-10'' noon_jan10)))
         noon_jan10 ''t2_user'' Medium ''2024-01-10''
   \<and> normalizeGuess '' r/AskReddit'' = ''AskReddit''
   \<and> normalizeGuess_spec '' r/AskReddit'' = ''rAskReddit''
   \<and> normalizeGuess ''R/AskReddit'' = ''AskReddit''
   \<and> normalizeGuess_spec ''R/AskReddit'' = ''RAskReddit''"
  by code_simp

section \<open>C4: completion is absorbing\<close>

lemma handle_cache_hit:
  assumes "request_key q = (u, m, dk)" and "cache_lookup t (request_time q) dk m = Some p"
  shows "answer_of (fst (handle q t)) = Some (pz_subreddit p)
       \<and> snd (handle q t) (cacheKey dk m) = t (cacheKey dk m)"
proof (cases q)
  case (Guess r now body)
  obtain res s' where pg: "post_guess r now body t = (res, s')"
    by (cases "post_guess r now body t")
  have e: "ensure_committed t now u m dk (cacheKey dk m) = t (cacheKey dk m)"
    by (simp add: ensure_committed_frame cacheKey_not_user')
  have "cache_lookup (ensure_committed t now u m dk) now dk m = cache_lookup t now dk m"
    using e by (rule cache_lookup_cong)
  with assms(2) Guess
  have "cache_lookup (ensure_committed t now u m dk) now dk m = Some p" by simp
  then have hit: "buildDailyPuzzle dk m r now (ensure_committed t now u m dk)
      = (Inr p, ensure_committed t now u m dk)"
    unfolding buildDailyPuzzle_def by (rule build_with_hit)
  from pg assms(1) [unfolded Guess]
  have "answer_of (map_sum id GuessResponse res) = Some (pz_subreddit p)
      \<and> s' (cacheKey dk m) = t (cacheKey dk m)"
  proof (cases rule: post_guess_cases)
    case (error e)
    with hit show ?thesis by simp
  next
    case (scored p' s2 payload)
    with hit have eq: "p' = p" "s2 = ensure_committed t now u m dk" by simp_all
    from score_guess_frame [OF scored(3), of "cacheKey dk m"]
    have "s' (cacheKey dk m) = s2 (cacheKey dk m)"
      by (simp add: cacheKey_not_user')
    with eq e score_guess_response(2) [OF scored(3)] scored(1) show ?thesis
      by simp
  qed
  with pg Guess show ?thesis by simp
next
  case (GiveUp r now body)
  obtain res s' where pg: "post_giveup r now body t = (res, s')"
    by (cases "post_giveup r now body t")
  let ?s2 = "if \<not> readCompleted (ensure_committed t now u m dk) now u m dk
        then setCompleted (ensure_committed t now u m dk) now u m dk
        else ensure_committed t now u m dk"
  have e: "?s2 (cacheKey dk m) = t (cacheKey dk m)"
    by (simp add: setCompleted_eq ensure_committed_frame cacheKey_not_user')
  have "cache_lookup ?s2 now dk m = cache_lookup t now dk m"
    using e by (rule cache_lookup_cong)
  with assms(2) GiveUp
  have "cache_lookup ?s2 now dk m = Some p" by simp
  then have hit: "buildDailyPuzzle dk m r now ?s2 = (Inr p, ?s2)"
    unfolding buildDailyPuzzle_def by (rule build_with_hit)
  from pg assms(1) [unfolded GiveUp] obtain bres where
    b: "buildDailyPuzzle dk m r now ?s2 = (bres, s')"
    and r: "res = map_sum id (\<lambda>puzzle. \<lparr>gu_modeLocked = m, gu_modeIsLocked = True,
           gu_completedToday = True, gu_answer = pz_subreddit puzzle\<rparr>) bres"
    by (rule post_giveup_cases)
  from b hit have "bres = Inr p" "s' = ?s2" by simp_all
  with r e have "answer_of (map_sum id GiveUpResponse res) = Some (pz_subreddit p)
      \<and> s' (cacheKey dk m) = t (cacheKey dk m)"
    by simp
  with pg GiveUp show ?thesis by simp
qed

lemma handle_answer_cached:
  assumes "request_key q = (u, m, dk)" and "answer_of (fst (handle q t)) = Some a"
  shows "\<exists>p. cache_lookup (snd (handle q t)) (request_time q) dk m = Some p \<and> pz_subreddit p = a"
proof (cases q)
  case (Guess r now body)
  obtain res s' where pg: "post_guess r now body t = (res, s')"
    by (cases "post_guess r now body t")
  with assms(2) Guess have ans: "answer_of (map_sum id GuessResponse res) = Some a" by simp
  from pg assms(1) [unfolded Guess]
  have "\<exists>p. cache_lookup s' now dk m = Some p \<and> pz_subreddit p = a"
  proof (cases rule: post_guess_cases)
    case (error e)
    with ans show ?thesis by simp
  next
    case (scored p s2 payload)
    from build_with_caches [OF scored(2) [unfolded buildDailyPuzzle_def]]
    have "cache_lookup s2 now dk m = Some p" .
    moreover from score_guess_frame [OF scored(3), of "cacheKey dk m"]
    have "s' (cacheKey dk m) = s2 (cacheKey dk m)"
      by (simp add: cacheKey_not_user')
    moreover from ans scored(1) score_guess_response(2) [OF scored(3)]
    have "pz_subreddit p = a" by simp
    moreover have "s' (cacheKey dk m) = s2 (cacheKey dk m)
        \<Longrightarrow> cache_lookup s' now dk m = cache_lookup s2 now dk m"
      by (rule cache_lookup_cong)
    ultimately show ?thesis by simp
  qed
  with pg Guess show ?thesis by simp
next
  case (GiveUp r now body)
  obtain res s' where pg: "post_giveup r now body t = (res, s')"
    by (cases "post_giveup r now body t")
  with assms(2) GiveUp have ans: "answer_of (map_sum id GiveUpResponse res) = Some a" by simp
  from pg assms(1) [unfolded GiveUp] obtain bres where
    b: "buildDailyPuzzle dk m r now
       (if \<not> readCompleted (ensure_committed t now u m dk) now u m dk
        then setCompleted (ensure_committed t now u m dk) now u m dk
        else ensure_committed t now u m dk) = (bres, s')"
    and r: "res = map_sum id (\<lambda>puzzle. \<lparr>gu_modeLocked = m, gu_modeIsLocked = True,
           gu_completedToday = True, gu_answer = pz_subreddit puzzle\<rparr>) bres"
    by (rule post_giveup_cases)
  from ans r obtain p where p: "bres = Inr p" "pz_subreddit p = a"
    by (cases bres) auto
  from build_with_caches [OF b [unfolded buildDailyPuzzle_def p(1)]] p(2)
  have "\<exists>p. cache_lookup s' now dk m = Some p \<and> pz_subreddit p = a" by blast
  with pg GiveUp show ?thesis by simp
qed

lemma completed_frozen:
  assumes keys: "\<And>q. q \<in> set qs \<Longrightarrow>
      request_key q = (u, m, dk) \<and> lo \<le> request_time q \<and> request_time q \<le> hi"
    and span: "hi - lo < flag_lifetime"
    and settled: "settled s0 lo hi u m dk"
    and t: "lo \<le> t" "t \<le> hi"
    and c: "readCompleted s0 t u m dk"
    and e: "e \<in> set (trace handle qs s0)"
  shows "readCompleted (snd (snd e)) t u m dk"
    and "totalScore (snd (snd e)) t u m = totalScore s0 t u m"
    and "streak (snd (snd e)) t u m = streak s0 t u m"
    and "lastPlayedDay (snd (snd e)) t u m = lastPlayedDay s0 t u m"
    and "settled (fst e) lo hi u m dk" and "settled (snd (snd e)) lo hi u m dk"
proof -
  let ?P = "\<lambda>s. settled s lo hi u m dk \<and> readCompleted s t u m dk
      \<and> totalScore s t u m = totalScore s0 t u m \<and> streak s t u m = streak s0 t u m
      \<and> lastPlayedDay s t u m = lastPlayedDay s0 t u m"
  have "\<forall>e \<in> set (trace handle qs s0). ?P (fst e) \<and> ?P (snd (snd e))"
  proof (rule trace_invariant)
    show "?P s0" using c settled by simp
    fix q s assume q: "q \<in> set qs" and P: "?P s"
    from handle_window(1,2) [of q u m dk lo hi s t] keys [OF q] span P t
    show "?P (snd (handle q s))" by simp
  qed
  with e show "readCompleted (snd (snd e)) t u m dk"
    and "totalScore (snd (snd e)) t u m = totalScore s0 t u m"
    and "streak (snd (snd e)) t u m = streak s0 t u m"
    and "lastPlayedDay (snd (snd e)) t u m = lastPlayedDay s0 t u m"
    and "settled (fst e) lo hi u m dk" and "settled (snd (snd e)) lo hi u m dk"
    by blast+
qed

lemma cached_answers:
  assumes keys: "\<And>q. q \<in> set qs \<Longrightarrow>
      request_key q = (u, m, dk) \<and> lo \<le> request_time q \<and> request_time q \<le> hi"
    and span: "hi - lo < flag_lifetime"
    and settled: "settled s0 lo hi u m dk"
    and t: "lo \<le> t" "t \<le> hi"
    and c: "cache_lookup s0 t dk m = Some p"
    and e: "e \<in> set (trace handle qs s0)"
  shows "answer_of (fst (snd e)) = Some (pz_subreddit p)"
proof -
  let ?P = "\<lambda>s. settled s lo hi u m dk \<and> cache_lookup s t dk m = Some p"
  have "\<forall>e \<in> set (trace handle qs s0). ?P (fst e) \<and> ?P (snd (snd e))"
  proof (rule trace_invariant)
    show "?P s0" using c settled by simp
    fix q s assume q: "q \<in> set qs" and P: "?P s"
    from keys [OF q] have k: "request_key q = (u, m, dk)"
      and time: "lo \<le> request_time q" "request_time q \<le> hi" by simp_all
    from P settled_reads(6) [of s lo hi u m dk t "request_time q"] t time
    have "cache_lookup s (request_time q) dk m = Some p" by simp
    with k have "snd (handle q s) (cacheKey dk m) = s (cacheKey dk m)"
      by (rule handle_cache_hit [THEN conjunct2])
    then have "cache_lookup (snd (handle q s)) t dk m = cache_lookup s t dk m"
      by (rule cache_lookup_cong)
    moreover from P have "settled (snd (handle q s)) lo hi u m dk"
      by (intro handle_window(1) [OF k time span _ t]) simp
    ultimately show "?P (snd (handle q s))" using P by simp
  qed
  with e have before: "settled (fst e) lo hi u m dk" "cache_lookup (fst e) t dk m = Some p"
    by blast+
  from trace_entry [OF e] obtain q where q: "q \<in> set qs"
    and r: "fst (snd e) = fst (handle q (fst e))" by blast
  from keys [OF q] have k: "request_key q = (u, m, dk)"
    and time: "lo \<le> request_time q" "request_time q \<le> hi" by simp_all
  from before settled_reads(6) [of "fst e" lo hi u m dk t "request_time q"] t time
  have "cache_lookup (fst e) (request_time q) dk m = Some p" by simp
  with k have "answer_of (fst (handle q (fst e))) = Some (pz_subreddit p)"
    by (rule handle_cache_hit [THEN conjunct1])
  with r show ?thesis by simp
qed

text \<open>
  C4, as the code implements it. The completed flag and the cached puzzle are written
  with an expiry of 48 hours, so the property holds over a span shorter than that. Take
  any sequence of guess and give-up requests of one user for one mode and one day key that
  all arrive between the times \<open>lo\<close> and \<open>hi\<close>, less than 48 hours apart, handled one
  after the other from a store in which the completed flag is set and no key of that
  user, mode and day is due to expire between \<open>lo\<close> and \<open>hi\<close>; split its trace at any
  entry, and read the store at any time \<open>t\<close> of the span. After that request
  \<open>totalScore\<close>, \<open>streak\<close> and \<open>lastPlayedDay\<close> are what they were at the start and
  the completed flag is set; if the puzzle was cached at the start, the response carries
  the cached puzzle's community as its answer; and whatever answer the response carries,
  every later response carries the same.
\<close>

theorem completed_absorbing:
  "(\<forall>q \<in> set qs. request_key q = (u, m, dk) \<and> lo \<le> request_time q \<and> request_time q \<le> hi)
     \<and> hi - lo < flag_lifetime \<and> settled s0 lo hi u m dk \<and> lo \<le> t \<and> t \<le> hi
     \<and> readCompleted s0 t u m dk
     \<and> trace handle qs s0 = earlier @ (s, res, s') # later \<longrightarrow>
   totalScore s' t u m = totalScore s0 t u m \<and> streak s' t u m = streak s0 t u m
   \<and> lastPlayedDay s' t u m = lastPlayedDay s0 t u m \<and> readCompleted s' t u m dk
   \<and> (\<forall>p. cache_lookup s0 t dk m = Some p \<longrightarrow> answer_of res = Some (pz_subreddit p))
   \<and> (\<forall>a. answer_of res = Some a \<longrightarrow> (\<forall>y \<in> set later. answer_of (fst (snd y)) = Some a))"
proof
  assume a: "(\<forall>q \<in> set qs. request_key q = (u, m, dk) \<and> lo \<le> request_time q \<and> request_time q \<le> hi)
     \<and> hi - lo < flag_lifetime \<and> settled s0 lo hi u m dk \<and> lo \<le> t \<and> t \<le> hi
     \<and> readCompleted s0 t u m dk
     \<and> trace handle qs s0 = earlier @ (s, res, s') # later"
  then have keys: "\<And>q. q \<in> set qs \<Longrightarrow>
      request_key q = (u, m, dk) \<and> lo \<le> request_time q \<and> request_time q \<le> hi"
    and span: "hi - lo < flag_lifetime" and settled: "settled s0 lo hi u m dk"
    and t: "lo \<le> t" "t \<le> hi"
    and c: "readCompleted s0 t u m dk"
    and split: "trace handle qs s0 = earlier @ (s, res, s') # later" by auto
  have e: "(s, res, s') \<in> set (trace handle qs s0)" using split by simp
  from completed_frozen [OF keys span settled t c e]
  have frozen: "readCompleted s' t u m dk" "totalScore s' t u m = totalScore s0 t u m"
    "streak s' t u m = streak s0 t u m" "lastPlayedDay s' t u m = lastPlayedDay s0 t u m"
    and st: "settled s lo hi u m dk" "settled s' lo hi u m dk"
    by simp_all
  have cached: "answer_of res = Some (pz_subreddit p)"
    if "cache_lookup s0 t dk m = Some p" for p
  proof -
    from keys span settled t that e
    have "answer_of (fst (snd (s, res, s'))) = Some (pz_subreddit p)"
      by (rule cached_answers)
    then show ?thesis by simp
  qed
  have later: "answer_of (fst (snd y)) = Some a"
    if ans: "answer_of res = Some a" and y: "y \<in> set later" for a y
  proof -
    from trace_entry [OF e] obtain q where q: "q \<in> set qs"
      and r: "res = fst (handle q s)" and s': "s' = snd (handle q s)" by auto
    from keys [OF q] have k: "request_key q = (u, m, dk)"
      and time: "lo \<le> request_time q" "request_time q \<le> hi" by simp_all
    from ans r have "answer_of (fst (handle q s)) = Some a" by simp
    with k have "\<exists>p. cache_lookup (snd (handle q s)) (request_time q) dk m = Some p
        \<and> pz_subreddit p = a"
      by (rule handle_answer_cached)
    with s' obtain p where p: "cache_lookup s' (request_time q) dk m = Some p"
      "pz_subreddit p = a"
      by auto
    from p(1) settled_reads(6) [OF st(2) t time] have p': "cache_lookup s' t dk m = Some p"
      by simp
    from trace_rest [OF split] obtain qs' where sub: "set qs' \<subseteq> set qs"
      and l: "later = trace handle qs' s'" by auto
    from sub keys have keys': "\<And>q. q \<in> set qs' \<Longrightarrow>
        request_key q = (u, m, dk) \<and> lo \<le> request_time q \<and> request_time q \<le> hi" by blast
    from y l have "y \<in> set (trace handle qs' s')" by simp
    with keys' span st(2) t p' have "answer_of (fst (snd y)) = Some (pz_subreddit p)"
      by (rule cached_answers)
    with p(2) show ?thesis by simp
  qed
  from frozen cached later
  show "totalScore s' t u m = totalScore s0 t u m \<and> streak s' t u m = streak s0 t u m
   \<and> lastPlayedDay s' t u m = lastPlayedDay s0 t u m \<and> readCompleted s' t u m dk
   \<and> (\<forall>p. cache_lookup s0 t dk m = Some p \<longrightarrow> answer_of res = Some (pz_subreddit p))
   \<and> (\<forall>a. answer_of res = Some a \<longrightarrow> (\<forall>y \<in> set later. answer_of (fst (snd y)) = Some a))"
    by simp
qed

lemma split2: "length xs = 2 \<Longrightarrow> xs = [] @ (fst (xs ! 0), fst (snd (xs ! 0)), snd (snd (xs ! 0))) # [xs ! 1]"
  by (cases xs; cases "tl xs") auto

text \<open>
  A day that was finished at noon without a win: a correct guess at noon and a give-up a
  day later leave the score at 340 and both carry the answer of the cached puzzle.
\<close>

theorem completed_absorbing_witness:
  "noon_jan11 - noon_jan10 < flag_lifetime
   \<and> settled (completed_store ''2024-01-10'' noon_jan10) noon_jan10 noon_jan11
       ''t2_user'' Medium ''2024-01-10''
   \<and> readCompleted (completed_store ''2024-01-10'' noon_jan10) noon_jan11
       ''t2_user'' Medium ''2024-01-10''
   \<and> totalScore (completed_store ''2024-01-10'' noon_jan10) noon_jan11 ''t2_user'' Medium = 340
   \<and> totalScore (snd (snd (trace handle demo_replay (completed_store ''2024-01-10'' noon_jan10) ! 0)))
        noon_jan11 ''t2_user'' Medium = 340
   \<and> readCompleted (snd (snd (trace handle demo_replay (completed_store ''2024-01-10'' noon_jan10) ! 0)))
        noon_jan11 ''t2_user'' Medium ''2024-01-10''
   \<and> is_correct (fst (snd (trace handle demo_replay (completed_store ''2024-01-10'' noon_jan10) ! 0)))
   \<and> answer_of (fst (snd (trace handle demo_replay (completed_store ''2024-01-10'' noon_jan10) ! 0)))
        = Some ''AskReddit''
   \<and> answer_of (fst (snd (trace handle demo_replay (completed_store ''2024-01-10'' noon_jan10) ! 1)))
        = Some ''AskReddit''"
proof -
  let ?s0 = "completed_store ''2024-01-10'' noon_jan10"
  let ?tr = "trace handle demo_replay ?s0"
  have keys: "\<forall>q \<in> set demo_replay. request_key q = (''t2_user'', Medium, ''2024-01-10'')
      \<and> noon_jan10 \<le> request_time q \<and> request_time q \<le> noon_jan11"
    by (simp add: demo_replay_def) code_simp
  have span: "noon_jan11 - noon_jan10 < flag_lifetime" "noon_jan10 \<le> noon_jan11"
    by (simp_all add: noon_jan10_def noon_jan11_def flag_lifetime_def)
  have st: "settled ?s0 noon_jan10 noon_jan11 ''t2_user'' Medium ''2024-01-10''" by code_simp
  have c: "readCompleted ?s0 noon_jan11 ''t2_user'' Medium ''2024-01-10''" by code_simp
  have sc: "totalScore ?s0 noon_jan11 ''t2_user'' Medium = 340" by code_simp
  have cache: "cache_lookup ?s0 noon_jan11 ''2024-01-10'' Medium = Some (ask_puzzle ''2024-01-10'')"
    by code_simp
  have ans: "pz_subreddit (ask_puzzle ''2024-01-10'') = ''AskReddit''"
    by (simp add: ask_puzzle_def)
  have ok: "is_correct (fst (snd (?tr ! 0)))" by code_simp
  have "length ?tr = 2" unfolding length_trace by (simp add: demo_replay_def)
  then have split: "?tr = [] @ (fst (?tr ! 0), fst (snd (?tr ! 0)), snd (snd (?tr ! 0))) # [?tr ! 1]"
    by (rule split2)
  from completed_absorbing [of demo_replay "''t2_user''" Medium "''2024-01-10''" noon_jan10
      noon_jan11 ?s0 noon_jan11 "[]" "fst (?tr ! 0)" "fst (snd (?tr ! 0))" "snd (snd (?tr ! 0))"
      "[?tr ! 1]"]
    keys span st c split cache ans sc ok
  show ?thesis by simp
qed

text \<open>
  The claim as stated fails. A day key is accepted from the server's yesterday to its
  tomorrow, a span of 72 hours, while the completed flag and the cached puzzle live 48
  hours. A give-up for the medium puzzle of 2024-01-10 at 00:01 UTC on 9 January sets the
  completed flag and answers \<open>AskReddit\<close>. At 00:02 UTC on 11 January the same day key
  is still accepted, but the flag and the cached puzzle have expired: the puzzle is built
  anew from what the feed then holds, the answer is another one, and a correct guess
  scores 100, so that \<open>totalScore\<close> goes from 340 to 440.
\<close>

theorem replay_after_expiry:
  "map request_key late_replay
     = [(''t2_user'', Medium, ''2024-01-10''), (''t2_user'', Medium, ''2024-01-10'')]
   \<and> map request_time late_replay = [jan09_0001, jan11_0002]
   \<and> jan11_0002 - jan09_0001 = flag_lifetime + 60000
   \<and> map (\<lambda>e. fst (snd e)) (trace handle late_replay streak4_store)
     = [Inr (GiveUpResponse
          \<lparr>gu_modeLocked = Medium, gu_modeIsLocked = True, gu_completedToday = True,
           gu_answer = ''AskReddit''\<rparr>),
        Inr (GuessResponse
          \<lparr>gr_correct = True, gr_stageUsed = 1, gr_pointsAwarded = 100,
           gr_answer = ''pics'', gr_totalScore = 440, gr_streak = 1,
           gr_modeLocked = Medium, gr_modeIsLocked = True, gr_completedToday = Some True\<rparr>)]
   \<and> map (\<lambda>e. (readCompleted (snd (snd e)) jan09_0001 ''t2_user'' Medium ''2024-01-10'',
                totalScore (snd (snd e)) jan11_0002 ''t2_user'' Medium))
       (trace handle late_replay streak4_store)
     = [(True, 340), (True, 440)]
   \<and> readCompleted (snd (snd (trace handle late_replay streak4_store ! 0))) jan11_0002
       ''t2_user'' Medium ''2024-01-10'' = False"
  by code_simp

section \<open>C9: the state request\<close>

lemma get_state_frame:
  assumes "get_state r now query s = (res, s')"
    and "k \<noteq> cacheKey (resolveDateKey now (mb_dateKey query)) (normalizeMode (mb_mode query))"
  shows "s' k = s k"
proof -
  let ?dk = "resolveDateKey now (mb_dateKey query)" and ?m = "normalizeMode (mb_mode query)"
  obtain bres s1 where b: "buildDailyPuzzle ?dk ?m r now s = (bres, s1)"
    by (cases "buildDailyPuzzle ?dk ?m r now s")
  with assms(1) have "s' = s1"
    by (cases bres) (auto simp: get_state_def Let_def)
  with build_with_frame [OF b [unfolded buildDailyPuzzle_def] assms(2)] show ?thesis by simp
qed

text \<open>
  C9. Handling a state request changes no key of the store but, at most, the puzzle cache
  entry of the requested day and mode; so for every user, mode and day key the committed,
  completed and points-awarded flags and the per-mode \<open>totalScore\<close>, \<open>streak\<close> and
  \<open>lastPlayedDay\<close> are the same before and after, read at any time \<open>t\<close>, also when the request
  ends in an error.
\<close>

theorem state_read_only:
  "get_state r now query s = (res, s') \<longrightarrow>
     readCommitted s' t u m dk = readCommitted s t u m dk
   \<and> readCompleted s' t u m dk = readCompleted s t u m dk
   \<and> pointsAwardedFlag s' t u m dk = pointsAwardedFlag s t u m dk
   \<and> totalScore s' t u m = totalScore s t u m
   \<and> streak s' t u m = streak s t u m
   \<and> lastPlayedDay s' t u m = lastPlayedDay s t u m
   \<and> (\<forall>k. k \<noteq> cacheKey (resolveDateKey now (mb_dateKey query)) (normalizeMode (mb_mode query))
         \<longrightarrow> s' k = s k)"
proof
  assume a: "get_state r now query s = (res, s')"
  have frame: "s' k = s k"
    if "k \<noteq> cacheKey (resolveDateKey now (mb_dateKey query)) (normalizeMode (mb_mode query))"
    for k using a that by (rule get_state_frame)
  have "s' (kCommit u m dk) = s (kCommit u m dk)" "s' (kCompleted u m dk) = s (kCompleted u m dk)"
    "s' (kPlayed u m dk) = s (kPlayed u m dk)" "s' (kScore u m) = s (kScore u m)"
    "s' (kStreak u m) = s (kStreak u m)" "s' (kLastDate u m) = s (kLastDate u m)"
    by (simp_all add: frame cacheKey_not_user')
  with frame show "readCommitted s' t u m dk = readCommitted s t u m dk
   \<and> readCompleted s' t u m dk = readCompleted s t u m dk
   \<and> pointsAwardedFlag s' t u m dk = pointsAwardedFlag s t u m dk
   \<and> totalScore s' t u m = totalScore s t u m
   \<and> streak s' t u m = streak s t u m
   \<and> lastPlayedDay s' t u m = lastPlayedDay s t u m
   \<and> (\<forall>k. k \<noteq> cacheKey (resolveDateKey now (mb_dateKey query)) (normalizeMode (mb_mode query))
         \<longrightarrow> s' k = s k)"
    by (simp add: readCommitted_def readCompleted_def pointsAwardedFlag_def is_one_def
        totalScore_def streak_def lastPlayedDay_def readNumber_def readString_def redis_get_def)
qed

text \<open>A state request on a store with no cached puzzle: the puzzle is built and cached.\<close>

theorem state_read_only_witness:
  "fst (get_state (ask_reddit (Some ask_comments)) noon_jan10 (mode_body ''2024-01-10'') streak4_store)
     = Inr \<lparr>sr_puzzle = ask_puzzle ''2024-01-10'', sr_modeLocked = Medium,
            sr_modeIsLocked = False, sr_completedToday = False, sr_totalScore = 340,
            sr_streak = 4, sr_lastPlayedDateKey = Some ''2024-01-09''\<rparr>
   \<and> \<not> readCommitted (snd (get_state (ask_reddit (Some ask_comments)) noon_jan10
         (mode_body ''2024-01-10'') streak4_store)) noon_jan10 ''t2_user'' Medium ''2024-01-10''
   \<and> \<not> readCompleted (snd (get_state (ask_reddit (Some ask_comments)) noon_jan10
         (mode_body ''2024-01-10'') streak4_store)) noon_jan10 ''t2_user'' Medium ''2024-01-10''
   \<and> totalScore (snd (get_state (ask_reddit (Some ask_comments)) noon_jan10
         (mode_body ''2024-01-10'') streak4_store)) noon_jan10 ''t2_user'' Medium = 340
   \<and> streak (snd (get_state (ask_reddit (Some ask_comments)) noon_jan10
         (mode_body ''2024-01-10'') streak4_store)) noon_jan10 ''t2_user'' Medium = 4"
proof -
  let ?g = "get_state (ask_reddit (Some ask_comments)) noon_jan10 (mode_body ''2024-01-10'')
      streak4_store"
  have r: "fst ?g = Inr \<lparr>sr_puzzle = ask_puzzle ''2024-01-10'', sr_modeLocked = Medium,
            sr_modeIsLocked = False, sr_completedToday = False, sr_totalScore = 340,
            sr_streak = 4, sr_lastPlayedDateKey = Some ''2024-01-09''\<rparr>"
    by code_simp
  have before: "\<not> readCommitted streak4_store noon_jan10 ''t2_user'' Medium ''2024-01-10''"
    "\<not> readCompleted streak4_store noon_jan10 ''t2_user'' Medium ''2024-01-10''"
    "totalScore streak4_store noon_jan10 ''t2_user'' Medium = 340"
    "streak streak4_store noon_jan10 ''t2_user'' Medium = 4"
    by code_simp+
  have "?g = (fst ?g, snd ?g)" by simp
  from state_read_only [of "ask_reddit (Some ask_comments)" noon_jan10
      "mode_body ''2024-01-10''" streak4_store "fst ?g" "snd ?g" noon_jan10 "''t2_user''" Medium
      "''2024-01-10''"] this before r
  show ?thesis by simp
qed


section \<open>C10: a guess request without a body\<close>


lemma pick_loop_mem:
  "candidates \<noteq> [] \<Longrightarrow> pick_loop r minSubs candidates baseSeed idxs tried = Some sub
     \<Longrightarrow> sub \<in> set candidates"
proof (induction idxs arbitrary: tried)
  case Nil
  then show ?case by simp
next
  case (Cons i rest)
  let ?sub = "candidates ! pickIndex (length candidates)
      (seedFromString (show_nat (unat baseSeed) @ '':'' @ show_nat i))"
  have mem: "?sub \<in> set candidates"
    using Cons.prems(1) by (rule pickIndex_nth_mem)
  from Cons.prems(2) have "sub = ?sub
      \<or> pick_loop r minSubs candidates baseSeed rest tried = Some sub
      \<or> pick_loop r minSubs candidates baseSeed rest (?sub # tried) = Some sub"
    by (auto simp: Let_def split: if_splits info_result.splits)
  with mem Cons.IH [OF Cons.prems(1)] show ?case by blast
qed











section \<open>C6: the builder is deterministic\<close>

lemma build_with_step:
  assumes inv: "\<forall>v ex. s (cacheKey dk m) = Some (v, ex) \<longrightarrow>
      (\<exists>p. (case select dk m r of Inl e \<Rightarrow> Inl e | Inr sub \<Rightarrow> build_from dk m r sub) = Inr p
           \<and> v = Str (JSON_stringify p))"
    and b: "build_with select dk m r now s = (res, s')"
  shows "res = (case select dk m r of Inl e \<Rightarrow> Inl e | Inr sub \<Rightarrow> build_from dk m r sub)"
    and "\<forall>v ex. s' (cacheKey dk m) = Some (v, ex) \<longrightarrow>
      (\<exists>p. (case select dk m r of Inl e \<Rightarrow> Inl e | Inr sub \<Rightarrow> build_from dk m r sub) = Inr p
           \<and> v = Str (JSON_stringify p))"
proof -
  let ?fresh = "case select dk m r of Inl e \<Rightarrow> Inl e | Inr sub \<Rightarrow> build_from dk m r sub"
  have "res = ?fresh \<and> (\<forall>v ex. s' (cacheKey dk m) = Some (v, ex) \<longrightarrow>
      (\<exists>p. ?fresh = Inr p \<and> v = Str (JSON_stringify p)))"
  proof (cases "redis_get s now (cacheKey dk m)")
    case None
    then have miss: "build_with select dk m r now s =
        (case select dk m r of
           Inl e \<Rightarrow> (Inl e, s)
         | Inr subreddit \<Rightarrow>
             (case build_from dk m r subreddit of
                Inl e \<Rightarrow> (Inl e, s)
              | Inr puzzle \<Rightarrow>
                  (Inr puzzle,
                   s(cacheKey dk m \<mapsto> (Str (JSON_stringify puzzle), Some (now + flag_lifetime))))))"
      by (intro build_with_miss) simp
    show ?thesis
    proof (cases "select dk m r")
      case (Inl e)
      with miss b have "res = Inl e" "s' = s" by simp_all
      with Inl inv show ?thesis by simp
    next
      case sel: (Inr sub)
      show ?thesis
      proof (cases "build_from dk m r sub")
        case (Inl e)
        with miss b sel have "res = Inl e" "s' = s" by simp_all
        with Inl sel inv show ?thesis by simp
      next
        case (Inr puzzle)
        with miss b sel have "res = Inr puzzle"
          "s' = s(cacheKey dk m \<mapsto> (Str (JSON_stringify puzzle), Some (now + flag_lifetime)))"
          by simp_all
        with Inr sel show ?thesis by simp
      qed
    qed
  next
    case (Some v)
    then obtain ex where entry: "s (cacheKey dk m) = Some (v, ex)"
      by (auto simp: redis_get_def split: option.splits if_splits)
    with inv obtain p where p: "?fresh = Inr p" "v = Str (JSON_stringify p)" by blast
    obtain c cs where "JSON_stringify p = c # cs"
      using JSON_stringify_nonempty [of p] by (cases "JSON_stringify p") auto
    with Some p(2) have "cache_lookup s now dk m = Some p"
      using JSON_roundtrip [of p] by (simp add: cache_lookup_def)
    then have "build_with select dk m r now s = (Inr p, s)" by (rule build_with_hit)
    with b p inv show ?thesis by simp
  qed
  then show "res = ?fresh"
    and "\<forall>v ex. s' (cacheKey dk m) = Some (v, ex) \<longrightarrow>
      (\<exists>p. ?fresh = Inr p \<and> v = Str (JSON_stringify p))"
    by simp_all
qed

lemma build_with_sequence:
  assumes "s0 (cacheKey dk m) = None" and "e \<in> set (trace (build_with select dk m r) ts s0)"
  shows "fst (snd e) = (case select dk m r of Inl err \<Rightarrow> Inl err | Inr sub \<Rightarrow> build_from dk m r sub)"
    and "\<forall>v ex. snd (snd e) (cacheKey dk m) = Some (v, ex) \<longrightarrow>
           (\<exists>p. fst (snd e) = Inr p \<and> v = Str (JSON_stringify p))"
proof -
  let ?fresh = "case select dk m r of Inl e \<Rightarrow> Inl e | Inr sub \<Rightarrow> build_from dk m r sub"
  let ?I = "\<lambda>s :: redis. \<forall>v ex. s (cacheKey dk m) = Some (v, ex) \<longrightarrow>
      (\<exists>p. ?fresh = Inr p \<and> v = Str (JSON_stringify p))"
  have "\<forall>e \<in> set (trace (build_with select dk m r) ts s0). ?I (fst e) \<and> ?I (snd (snd e))"
  proof (rule trace_invariant)
    show "?I s0" using assms(1) by simp
    fix now s assume I: "?I s"
    have "build_with select dk m r now s
        = (fst (build_with select dk m r now s), snd (build_with select dk m r now s))"
      by simp
    from build_with_step(2) [OF I this] show "?I (snd (build_with select dk m r now s))" .
  qed
  with assms(2) have I: "?I (fst e)" by blast
  from trace_entry [OF assms(2)] obtain now where
    r: "fst (snd e) = fst (build_with select dk m r now (fst e))"
    and s': "snd (snd e) = snd (build_with select dk m r now (fst e))" by blast
  have b: "build_with select dk m r now (fst e) = (fst (snd e), snd (snd e))"
    using r s' by simp
  from build_with_step [OF I b]
  show "fst (snd e) = ?fresh"
    and "\<forall>v ex. snd (snd e) (cacheKey dk m) = Some (v, ex) \<longrightarrow>
           (\<exists>p. fst (snd e) = Inr p \<and> v = Str (JSON_stringify p))"
    by simp_all
qed

lemma build_with_fresh:
  "redis_get s now (cacheKey dk m) = None \<Longrightarrow>
     fst (build_with select dk m r now s) =
       (case select dk m r of Inl e \<Rightarrow> Inl e | Inr sub \<Rightarrow> build_from dk m r sub)"
  by (simp add: build_with_def split: sum.splits)

lemma pickSubredditForMode_mem:
  assumes "pickSubredditForMode dateKey mode r = Inr sub"
    and "list_posts r ''all'' 120 = Some posts" and "truthy_subs posts \<noteq> []"
  shows "sub \<in> set (truthy_subs posts)"
proof -
  let ?seed = "seedFromString (dateKey @ '':'' @ mode_str mode @ '':subpick'')"
  show ?thesis
  proof (cases "pick_loop r (minSubsForMode mode) (truthy_subs posts) ?seed
      [0 ..< min 45 (length (truthy_subs posts))] []")
    case None
    with assms have "sub = truthy_subs posts !
        pickIndex (length (truthy_subs posts)) ?seed"
      by (simp add: pickSubredditForMode_def Let_def)
    with assms(3) show ?thesis by (simp add: pickIndex_nth_mem)
  next
    case (Some found)
    with assms have "sub = found"
      by (simp add: pickSubredditForMode_def Let_def)
    with pick_loop_mem [OF assms(3) Some] show ?thesis by simp
  qed
qed

lemma build_from_picks:
  assumes "build_from dk m r sub = Inr p"
  shows "pz_dateKey p = dk \<and> pz_mode p = m \<and> pz_subreddit p = sub
     \<and> (\<exists>posts comments.
          list_posts r sub 50 = Some posts \<and> getComments r (pz_postId p) = Some comments
          \<and> pickIndex (length posts)
               (seedFromString (dk @ '':'' @ mode_str m @ '':'' @ sub @ '':post'')) < length posts
          \<and> pz_postId p = p_id (posts ! pickIndex (length posts)
               (seedFromString (dk @ '':'' @ mode_str m @ '':'' @ sub @ '':post'')))
          \<and> pickIndex (length (pool sub comments))
               (seedFromString (dk @ '':'' @ mode_str m @ '':'' @ sub @ '':comment''))
              < length (pool sub comments)
          \<and> (pz_commentId p, pz_commentBody p) =
              pool sub comments ! pickIndex (length (pool sub comments))
                (seedFromString (dk @ '':'' @ mode_str m @ '':'' @ sub @ '':comment'')))"
proof -
  let ?ps = "seedFromString (dk @ '':'' @ mode_str m @ '':'' @ sub @ '':post'')"
  let ?cs = "seedFromString (dk @ '':'' @ mode_str m @ '':'' @ sub @ '':comment'')"
  from assms obtain posts where posts: "list_posts r sub 50 = Some posts" "posts \<noteq> []"
    by (auto simp: build_from_def Let_def split: option.splits if_splits)
  with assms obtain comments where
    comments: "getComments r (p_id (posts ! pickIndex (length posts) ?ps)) = Some comments"
    and ne: "pool sub comments \<noteq> []"
    by (auto simp: build_from_def Let_def split: option.splits if_splits)
  from assms posts comments ne
  have p: "pz_dateKey p = dk" "pz_mode p = m" "pz_subreddit p = sub"
    "pz_postId p = p_id (posts ! pickIndex (length posts) ?ps)"
    "pz_commentId p = fst (pool sub comments ! pickIndex (length (pool sub comments)) ?cs)"
    "pz_commentBody p = snd (pool sub comments ! pickIndex (length (pool sub comments)) ?cs)"
    by (auto simp: build_from_def Let_def)
  from posts(2) ne have "pickIndex (length posts) ?ps < length posts"
    and "pickIndex (length (pool sub comments)) ?cs < length (pool sub comments)"
    by (simp_all add: pickIndex_less)
  with p posts(1) comments show ?thesis by auto
qed

lemma map_constant: "\<forall>x \<in> set xs. f x = c \<Longrightarrow> map f xs = replicate (length xs) c"
  by (induction xs) simp_all

text \<open>
  C6. For a fixed day key, mode and upstream snapshot, in both listings: every call of a
  sequence of calls of \<open>buildDailyPuzzle\<close>, made at any times on the store the previous
  call left, starting from a store without a cache entry, returns one and the same result:
  the result of the seeded selection and of \<open>build_from\<close> on the snapshot, the same
  puzzle in all fields or the same error, whether the call finds the cached puzzle, or
  builds it for the first time, or builds it again after the cache entry has expired. What
  such a call leaves in the cache is the JSON text of that puzzle, and the text parses
  back to the puzzle. A single call that finds no cache entry returns that result
  whatever else the store holds and whatever the time is. The picks that make the result
  are functions of the day key, the mode and the snapshot alone: the community is one of
  the candidates of the global feed (first listing), the post is the one at the seeded
  index of the community's listing and the comment the one at the seeded index of the
  comment pool, both indices within range.
\<close>

theorem build_deterministic:
  "(s0 (cacheKey dk m) = None \<longrightarrow>
      (\<forall>e \<in> set (trace (buildDailyPuzzle dk m r) ts s0).
         fst (snd e) = (case pickSubredditForMode dk m r of
                          Inl err \<Rightarrow> Inl err | Inr sub \<Rightarrow> build_from dk m r sub)
         \<and> (\<forall>v ex. snd (snd e) (cacheKey dk m) = Some (v, ex) \<longrightarrow>
               (\<exists>p. fst (snd e) = Inr p \<and> v = Str (JSON_stringify p)))))
   \<and> (s0 (cacheKey dk m) = None \<longrightarrow>
      (\<forall>e \<in> set (trace (buildDailyPuzzle2 dk m r) ts s0).
         fst (snd e) = (case pickSubredditForMode2 dk m r of
                          Inl err \<Rightarrow> Inl err | Inr sub \<Rightarrow> build_from dk m r sub)
         \<and> (\<forall>v ex. snd (snd e) (cacheKey dk m) = Some (v, ex) \<longrightarrow>
               (\<exists>p. fst (snd e) = Inr p \<and> v = Str (JSON_stringify p)))))
   \<and> (redis_get s now (cacheKey dk m) = None \<longrightarrow>
        fst (buildDailyPuzzle dk m r now s) =
          (case pickSubredditForMode dk m r of
             Inl err \<Rightarrow> Inl err | Inr sub \<Rightarrow> build_from dk m r sub)
        \<and> fst (buildDailyPuzzle2 dk m r now s) =
          (case pickSubredditForMode2 dk m r of
             Inl err \<Rightarrow> Inl err | Inr sub \<Rightarrow> build_from dk m r sub))
   \<and> JSON_parse (JSON_stringify q) = Some q
   \<and> (pickSubredditForMode dk m r = Inr sub \<and> list_posts r ''all'' 120 = Some feed
        \<and> truthy_subs feed \<noteq> [] \<longrightarrow> sub \<in> set (truthy_subs feed))
   \<and> (build_from dk m r sub = Inr p \<longrightarrow>
        pz_dateKey p = dk \<and> pz_mode p = m \<and> pz_subreddit p = sub
        \<and> (\<exists>posts comments.
             list_posts r sub 50 = Some posts \<and> getComments r (pz_postId p) = Some comments
             \<and> pickIndex (length posts)
                  (seedFromString (dk @ '':'' @ mode_str m @ '':'' @ sub @ '':post'')) < length posts
             \<and> pz_postId p = p_id (posts ! pickIndex (length posts)
                  (seedFromString (dk @ '':'' @ mode_str m @ '':'' @ sub @ '':post'')))
             \<and> pickIndex (length (pool sub comments))
                  (seedFromString (dk @ '':'' @ mode_str m @ '':'' @ sub @ '':comment''))
                 < length (pool sub comments)
             \<and> (pz_commentId p, pz_commentBody p) =
                 pool sub comments ! pickIndex (length (pool sub comments))
                   (seedFromString (dk @ '':'' @ mode_str m @ '':'' @ sub @ '':comment''))))"
proof (intro conjI)
  show "s0 (cacheKey dk m) = None \<longrightarrow>
      (\<forall>e \<in> set (trace (buildDailyPuzzle dk m r) ts s0).
         fst (snd e) = (case pickSubredditForMode dk m r of
                          Inl err \<Rightarrow> Inl err | Inr sub \<Rightarrow> build_from dk m r sub)
         \<and> (\<forall>v ex. snd (snd e) (cacheKey dk m) = Some (v, ex) \<longrightarrow>
               (\<exists>p. fst (snd e) = Inr p \<and> v = Str (JSON_stringify p))))"
    unfolding buildDailyPuzzle_def
    using build_with_sequence [of s0 dk m _ pickSubredditForMode r ts] by blast
  show "s0 (cacheKey dk m) = None \<longrightarrow>
      (\<forall>e \<in> set (trace (buildDailyPuzzle2 dk m r) ts s0).
         fst (snd e) = (case pickSubredditForMode2 dk m r of
                          Inl err \<Rightarrow> Inl err | Inr sub \<Rightarrow> build_from dk m r sub)
         \<and> (\<forall>v ex. snd (snd e) (cacheKey dk m) = Some (v, ex) \<longrightarrow>
               (\<exists>p. fst (snd e) = Inr p \<and> v = Str (JSON_stringify p))))"
    unfolding buildDailyPuzzle2_def
    using build_with_sequence [of s0 dk m _ pickSubredditForMode2 r ts] by blast
  show "redis_get s now (cacheKey dk m) = None \<longrightarrow>
        fst (buildDailyPuzzle dk m r now s) =
          (case pickSubredditForMode dk m r of
             Inl err \<Rightarrow> Inl err | Inr sub \<Rightarrow> build_from dk m r sub)
        \<and> fst (buildDailyPuzzle2 dk m r now s) =
          (case pickSubredditForMode2 dk m r of
             Inl err \<Rightarrow> Inl err | Inr sub \<Rightarrow> build_from dk m r sub)"
    by (simp add: buildDailyPuzzle_def buildDailyPuzzle2_def build_with_fresh)
  show "JSON_parse (JSON_stringify q) = Some q"
    by (rule JSON_roundtrip)
  show "pickSubredditForMode dk m r = Inr sub \<and> list_posts r ''all'' 120 = Some feed
        \<and> truthy_subs feed \<noteq> [] \<longrightarrow> sub \<in> set (truthy_subs feed)"
    using pickSubredditForMode_mem by blast
  show "build_from dk m r sub = Inr p \<longrightarrow>
        pz_dateKey p = dk \<and> pz_mode p = m \<and> pz_subreddit p = sub
        \<and> (\<exists>posts comments.
             list_posts r sub 50 = Some posts \<and> getComments r (pz_postId p) = Some comments
             \<and> pickIndex (length posts)
                  (seedFromString (dk @ '':'' @ mode_str m @ '':'' @ sub @ '':post'')) < length posts
             \<and> pz_postId p = p_id (posts ! pickIndex (length posts)
                  (seedFromString (dk @ '':'' @ mode_str m @ '':'' @ sub @ '':post'')))
             \<and> pickIndex (length (pool sub comments))
                  (seedFromString (dk @ '':'' @ mode_str m @ '':'' @ sub @ '':comment''))
                 < length (pool sub comments)
             \<and> (pz_commentId p, pz_commentBody p) =
                 pool sub comments ! pickIndex (length (pool sub comments))
                   (seedFromString (dk @ '':'' @ mode_str m @ '':'' @ sub @ '':comment'')))"
    using build_from_picks by blast
qed

text \<open>
  Three calls for the medium puzzle of 2024-01-10 on a snapshot with three communities,
  three posts in each and three usable comments under each post, at noon on 10 January, a
  day later when the puzzle is in the cache, and just after the cache entry has expired:
  the same puzzle each time. The first listing picks the third post of \<open>pics\<close> and its
  third usable comment, the second listing the first post of \<open>aww\<close> and its second
  usable comment.
\<close>

theorem build_deterministic_witness:
  "streak4_store (cacheKey ''2024-01-10'' Medium) = None
   \<and> map (\<lambda>e. fst (snd e))
       (trace (buildDailyPuzzle ''2024-01-10'' Medium busy_reddit)
          [noon_jan10, noon_jan11, noon_jan12 + 1] streak4_store)
     = replicate 3 (Inr \<lparr>pz_dateKey = ''2024-01-10'', pz_mode = Medium, pz_subreddit = ''pics'',
          pz_postId = ''pics_p3'', pz_postTitle = ''A title'', pz_postBody = [],
          pz_commentId = ''t1_5'',
          pz_commentBody = ''Third long enough comment under pics_p3''\<rparr>)
   \<and> map (\<lambda>e. fst (snd e))
       (trace (buildDailyPuzzle2 ''2024-01-10'' Medium busy_reddit)
          [noon_jan10, noon_jan11, noon_jan12 + 1] streak4_store)
     = replicate 3 (Inr \<lparr>pz_dateKey = ''2024-01-10'', pz_mode = Medium, pz_subreddit = ''aww'',
          pz_postId = ''aww_p1'', pz_postTitle = ''A title'', pz_postBody = [],
          pz_commentId = ''t1_4'',
          pz_commentBody = ''Second long enough comment under aww_p1''\<rparr>)
   \<and> map (\<lambda>(now, e). cache_lookup (fst e) now ''2024-01-10'' Medium \<noteq> None)
       (zip [noon_jan10, noon_jan11, noon_jan12 + 1]
          (trace (buildDailyPuzzle ''2024-01-10'' Medium busy_reddit)
             [noon_jan10, noon_jan11, noon_jan12 + 1] streak4_store))
     = [False, True, False]
   \<and> map (pickIndex 3) [seedFromString ''2024-01-10:medium:pics:post'',
        seedFromString ''2024-01-10:medium:pics:comment'',
        seedFromString ''2024-01-10:medium:aww:post'',
        seedFromString ''2024-01-10:medium:aww:comment''] = [2, 2, 0, 1]"
proof -
  let ?ts = "[noon_jan10, noon_jan11, noon_jan12 + 1]"
  let ?tr = "trace (buildDailyPuzzle ''2024-01-10'' Medium busy_reddit) ?ts streak4_store"
  let ?tr2 = "trace (buildDailyPuzzle2 ''2024-01-10'' Medium busy_reddit) ?ts streak4_store"
  let ?p = "\<lparr>pz_dateKey = ''2024-01-10'', pz_mode = Medium, pz_subreddit = ''pics'',
          pz_postId = ''pics_p3'', pz_postTitle = ''A title'', pz_postBody = [],
          pz_commentId = ''t1_5'',
          pz_commentBody = ''Third long enough comment under pics_p3''\<rparr>"
  let ?p2 = "\<lparr>pz_dateKey = ''2024-01-10'', pz_mode = Medium, pz_subreddit = ''aww'',
          pz_postId = ''aww_p1'', pz_postTitle = ''A title'', pz_postBody = [],
          pz_commentId = ''t1_4'',
          pz_commentBody = ''Second long enough comment under aww_p1''\<rparr>"
  have miss: "streak4_store (cacheKey ''2024-01-10'' Medium) = None" by code_simp
  have sel: "pickSubredditForMode ''2024-01-10'' Medium busy_reddit = Inr ''pics''"
    "pickSubredditForMode2 ''2024-01-10'' Medium busy_reddit = Inr ''aww''" by code_simp+
  have built: "build_from ''2024-01-10'' Medium busy_reddit ''pics'' = Inr ?p"
    "build_from ''2024-01-10'' Medium busy_reddit ''aww'' = Inr ?p2" by code_simp+
  have hits: "map (\<lambda>(now, e). cache_lookup (fst e) now ''2024-01-10'' Medium \<noteq> None) (zip ?ts ?tr)
      = [False, True, False]" by code_simp
  have picks: "map (pickIndex 3) [seedFromString ''2024-01-10:medium:pics:post'',
        seedFromString ''2024-01-10:medium:pics:comment'',
        seedFromString ''2024-01-10:medium:aww:post'',
        seedFromString ''2024-01-10:medium:aww:comment''] = [2, 2, 0, 1]" by code_simp
  have len: "length ?tr = 3" "length ?tr2 = 3" unfolding length_trace by simp_all
  from build_deterministic [of streak4_store "''2024-01-10''" Medium busy_reddit ?ts] miss sel built
  have "\<forall>e \<in> set ?tr. fst (snd e) = Inr ?p" and "\<forall>e \<in> set ?tr2. fst (snd e) = Inr ?p2"
    by simp_all
  then have "map (\<lambda>e. fst (snd e)) ?tr = replicate (length ?tr) (Inr ?p)"
    and "map (\<lambda>e. fst (snd e)) ?tr2 = replicate (length ?tr2) (Inr ?p2)"
    by (simp_all only: map_constant)
  with len miss hits picks show ?thesis by simp
qed

section \<open>C8: the comment pools and the errors of the builder\<close>













end
